theory Spec2Isabelle
  imports Main "HOL-Library.Word"
begin

unbundle bit_operations_syntax

section \<open>Data model of the reactivity core (effect.ts, computed.ts, ref.ts)\<close>

text \<open>
  Objects of the source live in heaps indexed by their identity: a \<open>ReactiveEffect\<close> is
  an \<open>eid\<close>, a \<open>Dep\<close> (a \<open>Set<ReactiveEffect>\<close> with the marker fields \<open>w\<close> and \<open>n\<close>) is a
  \<open>did\<close>, a \<open>ComputedRefImpl\<close> is a \<open>cid\<close>. A reactive target is its identity together
  with what \<open>isArray\<close> and \<open>isMap\<close> answer on it.
\<close>

type_synonym eid = nat
type_synonym did = nat
type_synonym cid = nat

datatype tkind = PlainObject | ArrayObject | MapObject | SetObject

type_synonym target = "tkind \<times> nat"

definition isArray :: "target \<Rightarrow> bool" where
  "isArray t = (fst t = ArrayObject)"

definition isMap :: "target \<Rightarrow> bool" where
  "isMap t = (fst t = MapObject)"

text \<open>Property keys are strings or symbols; the two iteration keys are symbols.\<close>

datatype key = Str string | Sym nat

definition ITERATE_KEY :: key where
  "ITERATE_KEY = Sym 0"

definition MAP_KEY_ITERATE_KEY :: key where
  "MAP_KEY_ITERATE_KEY = Sym 1"

text \<open>The change kinds of \<open>operations.ts\<close>, as \<open>trigger\<close> distinguishes them.\<close>

datatype TriggerOpTypes = SET | ADD | DELETE | CLEAR

text \<open>A JavaScript value returned by an effect body: \<open>undefined\<close> or a number.\<close>

datatype val = Undefined | Num int

text \<open>How a call completes: normally with a value, or by a thrown exception.\<close>

datatype 'a completion = Normal 'a | Thrown

text \<open>
  Effect bodies, schedulers and hooks are closures of user code. A closure is modelled by
  the sequence of calls it makes into the core, followed by a result; the result is a
  function of how often the closure has been invoked, so that two invocations may return
  different values. \<open>'n\<close> is the type of the numbers passed as \<open>newValue\<close>.
\<close>

datatype 'n cmd =
    Track target key
  | Trigger target TriggerOpTypes "key option" "'n option"
  | Run eid
  | Stop eid
  | PauseTracking
  | EnableTracking
  | ResetTracking
  | Throw
  | Effect "'n cmd list" "nat \<Rightarrow> val" bool "'n cmd list option" bool "'n cmd list option"
  | Computed "'n cmd list" "nat \<Rightarrow> val" bool
  | GetValue cid
  | ComputedScheduler cid

record dep =
  members :: "eid list"
  w :: "32 word"
  n :: "32 word"

record 'n effect =
  active :: bool
  deps :: "did list"
  parent :: "eid option"
  computed :: "cid option"
  allowRecurse :: bool
  deferStop :: bool
  onStop :: "'n cmd list option"
  fn :: "'n cmd list"
  fn_result :: "nat \<Rightarrow> val"
  scheduler :: "'n cmd list option"
  fn_calls :: nat
  onStop_calls :: nat

record computedRef =
  cdep :: "did option"
  cvalue :: val
  ceffect :: eid
  dirty :: bool
  cacheable :: bool

record 'n state =
  targetMap :: "target \<Rightarrow> (key \<times> did) list option"
  depStore :: "did \<Rightarrow> dep"
  nextDep :: did
  effects :: "eid \<Rightarrow> 'n effect"
  nextEffect :: eid
  computeds :: "cid \<Rightarrow> computedRef"
  nextComputed :: cid
  activeEffect :: "eid option"
  shouldTrack :: bool
  trackStack :: "bool list"
  effectTrackDepth :: int
  trackOpBit :: "32 word"

definition maxMarkerBits :: int where
  "maxMarkerBits = 30"

text \<open>\<open>1 << k\<close> of JavaScript: the shift count is taken modulo 32, the result is an int32.\<close>

definition shl1 :: "int \<Rightarrow> 32 word" where
  "shl1 k = push_bit (nat (k mod 32)) 1"

section \<open>The tracking-suppression stack\<close>

definition pauseTracking :: "'n state \<Rightarrow> 'n state" where
  "pauseTracking s = s\<lparr>trackStack := trackStack s @ [shouldTrack s], shouldTrack := False\<rparr>"

definition enableTracking :: "'n state \<Rightarrow> 'n state" where
  "enableTracking s = s\<lparr>trackStack := trackStack s @ [shouldTrack s], shouldTrack := True\<rparr>"

text \<open>\<open>trackStack.pop()\<close> answers \<open>undefined\<close> on an empty array and leaves it empty.\<close>

definition resetTracking :: "'n state \<Rightarrow> 'n state" where
  "resetTracking s =
     (if trackStack s = [] then s\<lparr>shouldTrack := True\<rparr>
      else s\<lparr>trackStack := butlast (trackStack s), shouldTrack := last (trackStack s)\<rparr>)"

section \<open>Dependency sets and their markers\<close>

text \<open>A JavaScript \<open>Set\<close> keeps insertion order and holds each element once.\<close>

definition set_add :: "'a \<Rightarrow> 'a list \<Rightarrow> 'a list" where
  "set_add x xs = (if x \<in> set xs then xs else xs @ [x])"

definition set_delete :: "'a \<Rightarrow> 'a list \<Rightarrow> 'a list" where
  "set_delete x xs = removeAll x xs"

text \<open>\<open>new Set(xs)\<close>: the elements of \<open>xs\<close> in order of first occurrence.\<close>

fun new_Set :: "'a list \<Rightarrow> 'a list" where
  "new_Set [] = []"
| "new_Set (x # xs) = x # removeAll x (new_Set xs)"

text \<open>
  Modelled from the spec: \<open>createDep\<close>, \<open>wasTracked\<close>, \<open>newTracked\<close> and
  \<open>finalizeDepMarkers\<close> of \<open>dep.ts\<close>, which is not among the sources. A Dependency Set
  carries two bitmasks and every nesting depth owns one bit of each: \<open>w\<close> marks "was
  subscribed before this run", \<open>n\<close> marks "newly tracked within this run". A new set is
  unmarked. After a run, a set of the effect's dependency list whose was-tracked bit is
  set and whose newly-tracked bit is not loses the effect, and the list is compacted to
  the sets the effect still belongs to; as the marks are those of one run, the bit of
  the depth is cleared in both masks of every set visited.
\<close>

definition createDep :: "eid list \<Rightarrow> dep" where
  "createDep es = \<lparr>members = new_Set es, w = 0, n = 0\<rparr>"

definition wasTracked :: "32 word \<Rightarrow> dep \<Rightarrow> bool" where
  "wasTracked m d = (w d AND m \<noteq> 0)"

definition newTracked :: "32 word \<Rightarrow> dep \<Rightarrow> bool" where
  "newTracked m d = (n d AND m \<noteq> 0)"

definition finalizeDep :: "eid \<Rightarrow> did \<Rightarrow> 'n state \<times> did list \<Rightarrow> 'n state \<times> did list" where
  "finalizeDep e d acc =
     (let s = fst acc; kept = snd acc; dp = depStore s d; m = trackOpBit s;
          gone = (wasTracked m dp \<and> \<not> newTracked m dp);
          dp' = dp\<lparr>members := (if gone then set_delete e (members dp) else members dp),
                    w := w dp AND NOT m, n := n dp AND NOT m\<rparr>
      in (s\<lparr>depStore := (depStore s)(d := dp')\<rparr>, if gone then kept else kept @ [d]))"

definition finalizeDepMarkers :: "eid \<Rightarrow> 'n state \<Rightarrow> 'n state" where
  "finalizeDepMarkers e s =
     (let r = fold (finalizeDep e) (deps (effects s e)) (s, [])
      in (fst r)\<lparr>effects := (effects (fst r))(e := (effects (fst r) e)\<lparr>deps := snd r\<rparr>)\<rparr>)"

section \<open>cleanupEffect, track and trackEffects\<close>

definition dep_delete :: "eid \<Rightarrow> did \<Rightarrow> 'n state \<Rightarrow> 'n state" where
  "dep_delete e d s =
     s\<lparr>depStore := (depStore s)(d := (depStore s d)\<lparr>members := set_delete e (members (depStore s d))\<rparr>)\<rparr>"

definition cleanupEffect :: "eid \<Rightarrow> 'n state \<Rightarrow> 'n state" where
  "cleanupEffect e s =
     (let s1 = fold (dep_delete e) (deps (effects s e)) s
      in s1\<lparr>effects := (effects s1)(e := (effects s1 e)\<lparr>deps := []\<rparr>)\<rparr>)"

text \<open>
  \<open>trackEffects\<close> dereferences \<open>activeEffect!\<close>; both of its callers have tested that an
  effect is active, so the effect is passed along.
\<close>

definition trackEffects :: "did \<Rightarrow> eid \<Rightarrow> 'n state \<Rightarrow> 'n state" where
  "trackEffects d a s =
     (let dp = depStore s d;
          marked = (effectTrackDepth s \<le> maxMarkerBits \<and> \<not> newTracked (trackOpBit s) dp);
          dp1 = (if marked then dp\<lparr>n := n dp OR trackOpBit s\<rparr> else dp);
          shouldTrack' =
            (if effectTrackDepth s \<le> maxMarkerBits
             then (if marked then \<not> wasTracked (trackOpBit s) dp1 else False)
             else a \<notin> set (members dp))
      in if shouldTrack'
         then s\<lparr>depStore := (depStore s)(d := dp1\<lparr>members := set_add a (members dp1)\<rparr>),
                effects := (effects s)(a := (effects s a)\<lparr>deps := deps (effects s a) @ [d]\<rparr>)\<rparr>
         else s\<lparr>depStore := (depStore s)(d := dp1)\<rparr>)"

text \<open>
  The dependency map of a target is a JavaScript \<open>Map\<close>: an association list in insertion
  order. \<open>depOf\<close> resolves the Dependency Set of a location, creating the map and the set
  when they are missing, as \<open>track\<close> does before it calls \<open>trackEffects\<close>.
\<close>

definition depOf :: "target \<Rightarrow> key \<Rightarrow> 'n state \<Rightarrow> did \<times> 'n state" where
  "depOf t k s =
     (let depsMap = (case targetMap s t of None \<Rightarrow> [] | Some m \<Rightarrow> m)
      in case map_of depsMap k of
           Some d \<Rightarrow> (d, s)
         | None \<Rightarrow>
             (nextDep s,
              s\<lparr>targetMap := (targetMap s)(t \<mapsto> depsMap @ [(k, nextDep s)]),
                depStore := (depStore s)(nextDep s := createDep []),
                nextDep := Suc (nextDep s)\<rparr>))"

definition track :: "target \<Rightarrow> key \<Rightarrow> 'n state \<Rightarrow> 'n state" where
  "track t k s =
     (case activeEffect s of
        Some a \<Rightarrow>
          if shouldTrack s
          then (let r = depOf t k s in trackEffects (fst r) a (snd r))
          else s
      | None \<Rightarrow> s)"

section \<open>trigger: the Dependency Sets a write affects\<close>

text \<open>
  \<open>key >= newValue\<close> compares numbers: a string key is converted by \<open>ToNumber\<close>
  (\<open>None\<close> is NaN, which compares false), and a symbol key raises a TypeError.
  \<open>ToNumber\<close> on strings and \<open>isIntegerKey\<close> of \<open>@vue/shared\<close> are parameters.
\<close>

record 'n env =
  isIntegerKey :: "key option \<Rightarrow> bool"
  toNumber :: "string \<Rightarrow> 'n option"

datatype error = TypeError

definition key_ge :: "('n::linorder) env \<Rightarrow> key \<Rightarrow> 'n option \<Rightarrow> error + bool" where
  "key_ge env k newValue =
     (case k of
        Sym _ \<Rightarrow> Inl TypeError
      | Str str \<Rightarrow>
          Inr (case (toNumber env str, newValue) of
                 (Some a, Some b) \<Rightarrow> b \<le> a
               | _ \<Rightarrow> False))"

text \<open>The \<open>forEach\<close> of the \<open>length\<close> branch, over the dependency map in insertion order.\<close>

fun length_deps ::
  "('n::linorder) env \<Rightarrow> (key \<times> did) list \<Rightarrow> 'n option \<Rightarrow> did option list
     \<Rightarrow> error + did option list" where
  "length_deps env [] newValue acc = Inr acc"
| "length_deps env ((k, d) # m) newValue acc =
     (if k = Str ''length'' then length_deps env m newValue (acc @ [Some d])
      else case key_ge env k newValue of
             Inl err \<Rightarrow> Inl err
           | Inr True \<Rightarrow> length_deps env m newValue (acc @ [Some d])
           | Inr False \<Rightarrow> length_deps env m newValue acc)"

text \<open>
  Lines 291-336 of \<open>trigger\<close>: the list \<open>deps\<close>, whose entries may be \<open>undefined\<close>
  (\<open>None\<close>) where \<open>depsMap.get\<close> finds nothing.
\<close>

definition trigger_deps ::
  "('n::linorder) env \<Rightarrow> (key \<times> did) list \<Rightarrow> target \<Rightarrow> TriggerOpTypes \<Rightarrow> key option
     \<Rightarrow> 'n option \<Rightarrow> error + did option list" where
  "trigger_deps env depsMap t ty k newValue =
     (if ty = CLEAR then Inr (map (\<lambda>kd. Some (snd kd)) depsMap)
      else if k = Some (Str ''length'') \<and> isArray t then length_deps env depsMap newValue []
      else
        Inr ((case k of None \<Rightarrow> [] | Some k' \<Rightarrow> [map_of depsMap k'])
             @ (case ty of
                  ADD \<Rightarrow>
                    if \<not> isArray t
                    then [map_of depsMap ITERATE_KEY]
                         @ (if isMap t then [map_of depsMap MAP_KEY_ITERATE_KEY] else [])
                    else if isIntegerKey env k then [map_of depsMap (Str ''length'')] else []
                | DELETE \<Rightarrow>
                    if \<not> isArray t
                    then [map_of depsMap ITERATE_KEY]
                         @ (if isMap t then [map_of depsMap MAP_KEY_ITERATE_KEY] else [])
                    else []
                | SET \<Rightarrow> if isMap t then [map_of depsMap ITERATE_KEY] else []
                | CLEAR \<Rightarrow> [])))"

text \<open>The effects \<open>trigger\<close> hands to \<open>triggerEffects\<close> (lines 340-362).\<close>

definition trigger_effects :: "'n state \<Rightarrow> did option list \<Rightarrow> eid list" where
  "trigger_effects s ds =
     (if length ds = 1
      then (case hd ds of Some d \<Rightarrow> members (depStore s d) | None \<Rightarrow> [])
      else new_Set (concat (map (\<lambda>d. members (depStore s d)) (List.map_filter id ds))))"

section \<open>ReactiveEffect.run, stop, triggerEffects and the computed getter\<close>

text \<open>
  The loop over the \<open>parent\<close> references (lines 74-80). It does not return on a cyclic
  chain: \<open>None\<close> is "never returns".
\<close>

partial_function (option) chain_has :: "(eid \<Rightarrow> eid option) \<Rightarrow> eid option \<Rightarrow> eid \<Rightarrow> bool option" where
  "chain_has par p e =
     (case p of
        None \<Rightarrow> Some False
      | Some q \<Rightarrow> if q = e then Some True else chain_has par (par q) e)"

definition parents :: "'n state \<Rightarrow> eid \<Rightarrow> eid option" where
  "parents s e = parent (effects s e)"

definition upd_effect :: "eid \<Rightarrow> ('n effect \<Rightarrow> 'n effect) \<Rightarrow> 'n state \<Rightarrow> 'n state" where
  "upd_effect e g s = s\<lparr>effects := (effects s)(e := g (effects s e))\<rparr>"

definition upd_computed :: "cid \<Rightarrow> (computedRef \<Rightarrow> computedRef) \<Rightarrow> 'n state \<Rightarrow> 'n state" where
  "upd_computed c g s = s\<lparr>computeds := (computeds s)(c := g (computeds s c))\<rparr>"

text \<open>Calling \<open>this.fn()\<close>: the invocation is counted, its number selects the result.\<close>

definition enter_fn :: "eid \<Rightarrow> 'n state \<Rightarrow> 'n state" where
  "enter_fn e s = upd_effect e (\<lambda>x. x\<lparr>fn_calls := Suc (fn_calls x)\<rparr>) s"

definition fn_value :: "eid \<Rightarrow> 'n state \<Rightarrow> val" where
  "fn_value e s = fn_result (effects s e) (Suc (fn_calls (effects s e)))"

text \<open>Lines 84-98: the prologue of the \<open>try\<close> block, up to \<open>cleanupEffect(this)\<close>.\<close>

definition run_enter :: "eid \<Rightarrow> 'n state \<Rightarrow> 'n state" where
  "run_enter e s =
     cleanupEffect e
       ((upd_effect e (\<lambda>x. x\<lparr>parent := activeEffect s\<rparr>) s)
          \<lparr>activeEffect := Some e, shouldTrack := True,
           effectTrackDepth := effectTrackDepth s + 1,
           trackOpBit := shl1 (effectTrackDepth s + 1)\<rparr>)"

text \<open>Lines 101-109: the \<open>finally\<close> block before the deferred stop.\<close>

definition run_exit :: "eid \<Rightarrow> bool \<Rightarrow> 'n state \<Rightarrow> 'n state" where
  "run_exit e lastShouldTrack s =
     (let s1 = (if effectTrackDepth s \<le> maxMarkerBits then finalizeDepMarkers e s else s)
      in upd_effect e (\<lambda>x. x\<lparr>parent := None\<rparr>)
           (s1\<lparr>effectTrackDepth := effectTrackDepth s1 - 1,
               trackOpBit := shl1 (effectTrackDepth s1 - 1),
               activeEffect := parent (effects s1 e),
               shouldTrack := lastShouldTrack\<rparr>))"

text \<open>\<open>trackRefValue\<close> of ref.ts on a computed: its own Dependency Set is made on demand.\<close>

definition trackRefValue :: "cid \<Rightarrow> 'n state \<Rightarrow> 'n state" where
  "trackRefValue c s =
     (case activeEffect s of
        Some a \<Rightarrow>
          if shouldTrack s
          then (case cdep (computeds s c) of
                  Some d \<Rightarrow> trackEffects d a s
                | None \<Rightarrow>
                    trackEffects (nextDep s) a
                      ((upd_computed c (\<lambda>x. x\<lparr>cdep := Some (nextDep s)\<rparr>) s)
                         \<lparr>depStore := (depStore s)(nextDep s := createDep []),
                          nextDep := Suc (nextDep s)\<rparr>))
          else s
      | None \<Rightarrow> s)"

text \<open>\<open>new ReactiveEffect(fn, scheduler)\<close> with the fields its class body initialises.\<close>

definition new_effect :: "'n cmd list \<Rightarrow> (nat \<Rightarrow> val) \<Rightarrow> 'n cmd list option \<Rightarrow> 'n effect" where
  "new_effect body res sch =
     \<lparr>active = True, deps = [], parent = None, computed = None, allowRecurse = False,
      deferStop = False, onStop = None, fn = body, fn_result = res, scheduler = sch,
      fn_calls = 0, onStop_calls = 0\<rparr>"

text \<open>
  The constructor of \<open>ComputedRefImpl\<close> (lines 322-343 of the computed class): the new
  computed and its effect, whose scheduler is the closure of lines 329-339.
\<close>

definition new_computed :: "'n cmd list \<Rightarrow> (nat \<Rightarrow> val) \<Rightarrow> bool \<Rightarrow> 'n state \<Rightarrow> 'n state" where
  "new_computed getter res isSSR s =
     (let c = nextComputed s; e = nextEffect s
      in s\<lparr>effects := (effects s)
               (e := (new_effect getter res (Some [ComputedScheduler c]))
                       \<lparr>computed := Some c, active := \<not> isSSR\<rparr>),
            nextEffect := Suc e,
            computeds := (computeds s)
               (c := \<lparr>cdep = None, cvalue = Undefined, ceffect = e, dirty = True,
                      cacheable = \<not> isSSR\<rparr>),
            nextComputed := Suc c\<rparr>)"

text \<open>\<open>effect(fn, options)\<close> up to the first run: the effect object with its options.\<close>

definition new_user_effect ::
  "'n cmd list \<Rightarrow> (nat \<Rightarrow> val) \<Rightarrow> 'n cmd list option \<Rightarrow> bool \<Rightarrow> 'n cmd list option
     \<Rightarrow> 'n state \<Rightarrow> 'n state" where
  "new_user_effect body res sch rec hook s =
     s\<lparr>effects := (effects s)
          (nextEffect s := (new_effect body res sch)\<lparr>allowRecurse := rec, onStop := hook\<rparr>),
       nextEffect := Suc (nextEffect s)\<rparr>"

type_synonym 'n result = "(val completion \<times> 'n state) option"

text \<open>A call made for its effect only: its value is dropped, an exception goes on.\<close>

definition forget :: "'n result \<Rightarrow> 'n result" where
  "forget r =
     (case r of
        None \<Rightarrow> None
      | Some (Thrown, s) \<Rightarrow> Some (Thrown, s)
      | Some (Normal _, s) \<Rightarrow> Some (Normal Undefined, s))"

definition returning :: "val \<Rightarrow> val completion \<Rightarrow> val completion" where
  "returning v c = (case c of Normal _ \<Rightarrow> Normal v | Thrown \<Rightarrow> Thrown)"

text \<open>Statements in sequence: the first exception ends the sequence.\<close>

fun seq :: "('c \<Rightarrow> 'n state \<Rightarrow> 'n result) \<Rightarrow> 'c list \<Rightarrow> 'n state \<Rightarrow> 'n result" where
  "seq g [] s = Some (Normal Undefined, s)"
| "seq g (c # cs) s =
     (case g c s of
        None \<Rightarrow> None
      | Some (Thrown, s') \<Rightarrow> Some (Thrown, s')
      | Some (Normal _, s') \<Rightarrow> seq g cs s')"

text \<open>
  The functions below call user closures. They take the executor \<open>ex\<close> of closure
  bodies as an argument; \<open>exec\<close> ties the knot at the end of the section.
\<close>

text \<open>\<open>ReactiveEffect.stop\<close> (lines 116-126).\<close>

definition stop_with :: "('n cmd list \<Rightarrow> 'n state \<Rightarrow> 'n result) \<Rightarrow> eid \<Rightarrow> 'n state \<Rightarrow> 'n result" where
  "stop_with ex e s =
     (if activeEffect s = Some e
      then Some (Normal Undefined, upd_effect e (\<lambda>x. x\<lparr>deferStop := True\<rparr>) s)
      else if active (effects s e)
      then (let s1 = cleanupEffect e s
            in case onStop (effects s1 e) of
                 None \<Rightarrow> Some (Normal Undefined, upd_effect e (\<lambda>x. x\<lparr>active := False\<rparr>) s1)
               | Some hook \<Rightarrow>
                   (case ex hook (upd_effect e (\<lambda>x. x\<lparr>onStop_calls := Suc (onStop_calls x)\<rparr>) s1) of
                      None \<Rightarrow> None
                    | Some (Thrown, s2) \<Rightarrow> Some (Thrown, s2)
                    | Some (Normal _, s2) \<Rightarrow>
                        Some (Normal Undefined, upd_effect e (\<lambda>x. x\<lparr>active := False\<rparr>) s2)))
      else Some (Normal Undefined, s))"

text \<open>
  \<open>ReactiveEffect.run\<close> (lines 67-114). An exception of the \<open>finally\<close> block replaces
  the completion of the \<open>try\<close> block; otherwise that completion stands.
\<close>

definition run_with :: "('n cmd list \<Rightarrow> 'n state \<Rightarrow> 'n result) \<Rightarrow> eid \<Rightarrow> 'n state \<Rightarrow> 'n result" where
  "run_with ex e s =
     (if \<not> active (effects s e)
      then (case ex (fn (effects s e)) (enter_fn e s) of
              None \<Rightarrow> None
            | Some (c, s') \<Rightarrow> Some (returning (fn_value e s) c, s'))
      else
        (case chain_has (parents s) (activeEffect s) e of
           None \<Rightarrow> None
         | Some True \<Rightarrow> Some (Normal Undefined, s)
         | Some False \<Rightarrow>
             (case ex (fn (effects s e)) (enter_fn e (run_enter e s)) of
                None \<Rightarrow> None
              | Some (c, s2) \<Rightarrow>
                  (let s3 = run_exit e (shouldTrack s) s2
                   in if deferStop (effects s3 e)
                      then (case stop_with ex e s3 of
                              None \<Rightarrow> None
                            | Some (Thrown, s4) \<Rightarrow> Some (Thrown, s4)
                            | Some (Normal _, s4) \<Rightarrow> Some (returning (fn_value e s) c, s4))
                      else Some (returning (fn_value e s) c, s3)))))"

text \<open>\<open>triggerEffect\<close> (lines 386-402) and \<open>triggerEffects\<close> (lines 365-384).\<close>

definition triggerEffect_with ::
  "('n cmd list \<Rightarrow> 'n state \<Rightarrow> 'n result) \<Rightarrow> eid \<Rightarrow> 'n state \<Rightarrow> 'n result" where
  "triggerEffect_with ex e s =
     (if activeEffect s \<noteq> Some e \<or> allowRecurse (effects s e)
      then (case scheduler (effects s e) of
              Some sch \<Rightarrow> forget (ex sch s)
            | None \<Rightarrow> forget (run_with ex e s))
      else Some (Normal Undefined, s))"

definition triggerEffects_with ::
  "('n cmd list \<Rightarrow> 'n state \<Rightarrow> 'n result) \<Rightarrow> eid list \<Rightarrow> 'n state \<Rightarrow> 'n result" where
  "triggerEffects_with ex es s = seq (triggerEffect_with ex) es s"

text \<open>\<open>trigger\<close> (lines 278-363).\<close>

definition trigger_with ::
  "('n::linorder) env \<Rightarrow> ('n cmd list \<Rightarrow> 'n state \<Rightarrow> 'n result) \<Rightarrow> target \<Rightarrow> TriggerOpTypes
     \<Rightarrow> key option \<Rightarrow> 'n option \<Rightarrow> 'n state \<Rightarrow> 'n result" where
  "trigger_with env ex t ty k newValue s =
     (case targetMap s t of
        None \<Rightarrow> Some (Normal Undefined, s)
      | Some depsMap \<Rightarrow>
          (case trigger_deps env depsMap t ty k newValue of
             Inl err \<Rightarrow> Some (Thrown, s)
           | Inr ds \<Rightarrow> triggerEffects_with ex (trigger_effects s ds) s))"

text \<open>The scheduler of a computed's effect (lines 329-339 of the computed class).\<close>

definition computed_scheduler ::
  "('n cmd list \<Rightarrow> 'n state \<Rightarrow> 'n result) \<Rightarrow> cid \<Rightarrow> 'n state \<Rightarrow> 'n result" where
  "computed_scheduler ex c s =
     (if \<not> dirty (computeds s c)
      then (let s1 = upd_computed c (\<lambda>x. x\<lparr>dirty := True\<rparr>) s
            in case cdep (computeds s1 c) of
                 Some d \<Rightarrow> triggerEffects_with ex (members (depStore s1 d)) s1
               | None \<Rightarrow> Some (Normal Undefined, s1))
      else Some (Normal Undefined, s))"

text \<open>The getter \<open>get value()\<close> of a computed.\<close>

definition get_value_with ::
  "('n cmd list \<Rightarrow> 'n state \<Rightarrow> 'n result) \<Rightarrow> cid \<Rightarrow> 'n state \<Rightarrow> 'n result" where
  "get_value_with ex c s =
     (let s1 = trackRefValue c s
      in if dirty (computeds s1 c) \<or> \<not> cacheable (computeds s1 c)
         then (case run_with ex (ceffect (computeds s1 c))
                      (upd_computed c (\<lambda>x. x\<lparr>dirty := False\<rparr>) s1) of
                 None \<Rightarrow> None
               | Some (Thrown, s2) \<Rightarrow> Some (Thrown, s2)
               | Some (Normal v, s2) \<Rightarrow> Some (Normal v, upd_computed c (\<lambda>x. x\<lparr>cvalue := v\<rparr>) s2))
         else Some (Normal (cvalue (computeds s1 c)), s1))"

text \<open>
  One call of user code into the core. User code names an effect or a computed by the
  variable that holds it; a call through a variable that holds no object yet (an
  identity that is not allocated) raises a TypeError.
\<close>

fun exec1 ::
  "('n::linorder) env \<Rightarrow> ('n cmd list \<Rightarrow> 'n state \<Rightarrow> 'n result) \<Rightarrow> 'n cmd \<Rightarrow> 'n state \<Rightarrow> 'n result" where
  "exec1 env ex (Track t k) s = Some (Normal Undefined, track t k s)"
| "exec1 env ex (Trigger t ty k newValue) s = trigger_with env ex t ty k newValue s"
| "exec1 env ex (Run e) s =
     (if e < nextEffect s then forget (run_with ex e s) else Some (Thrown, s))"
| "exec1 env ex (Stop e) s =
     (if e < nextEffect s then stop_with ex e s else Some (Thrown, s))"
| "exec1 env ex PauseTracking s = Some (Normal Undefined, pauseTracking s)"
| "exec1 env ex EnableTracking s = Some (Normal Undefined, enableTracking s)"
| "exec1 env ex ResetTracking s = Some (Normal Undefined, resetTracking s)"
| "exec1 env ex Throw s = Some (Thrown, s)"
| "exec1 env ex (Effect body res lazy sch rec hook) s =
     (if lazy then Some (Normal Undefined, new_user_effect body res sch rec hook s)
      else forget (run_with ex (nextEffect s) (new_user_effect body res sch rec hook s)))"
| "exec1 env ex (Computed getter res isSSR) s =
     Some (Normal Undefined, new_computed getter res isSSR s)"
| "exec1 env ex (GetValue c) s =
     (if c < nextComputed s then forget (get_value_with ex c s) else Some (Thrown, s))"
| "exec1 env ex (ComputedScheduler c) s =
     (if c < nextComputed s then computed_scheduler ex c s else Some (Thrown, s))"

text \<open>
  Running a closure body. The fuel bounds how deep closures call closures: with fuel
  \<open>0\<close> no body runs, and \<open>None\<close> is "out of fuel". Code outside every closure runs at
  any fuel \<open>Suc f\<close>, its closures at \<open>f\<close>.
\<close>

primrec exec :: "('n::linorder) env \<Rightarrow> nat \<Rightarrow> 'n cmd list \<Rightarrow> 'n state \<Rightarrow> 'n result" where
  "exec env 0 cmds s = None"
| "exec env (Suc f) cmds s = seq (exec1 env (exec env f)) cmds s"

definition run :: "('n::linorder) env \<Rightarrow> nat \<Rightarrow> eid \<Rightarrow> 'n state \<Rightarrow> 'n result" where
  "run env f e s = run_with (exec env f) e s"

definition stop :: "('n::linorder) env \<Rightarrow> nat \<Rightarrow> eid \<Rightarrow> 'n state \<Rightarrow> 'n result" where
  "stop env f e s = stop_with (exec env f) e s"




section \<open>Example states and parameters\<close>

text \<open>The state of a freshly loaded module: no effect runs, tracking is enabled.\<close>

definition init_state :: "'n state" where
  "init_state =
     \<lparr>targetMap = (\<lambda>_. None), depStore = (\<lambda>_. createDep []), nextDep = 0,
      effects = (\<lambda>_. new_effect [] (\<lambda>_. Undefined) None), nextEffect = 0,
      computeds = (\<lambda>_. \<lparr>cdep = None, cvalue = Undefined, ceffect = 0, dirty = True,
                          cacheable = True\<rparr>),
      nextComputed = 0, activeEffect = None, shouldTrack = True, trackStack = [],
      effectTrackDepth = 0, trackOpBit = 1\<rparr>"

text \<open>
  An instance of the parameters for the examples: \<open>ToNumber\<close> on strings of decimal
  digits (the empty string is \<open>0\<close>; a string with any other character stands for NaN),
  and the integer keys as the decimal numerals without a leading zero.
\<close>

fun decimal :: "nat \<Rightarrow> string \<Rightarrow> nat option" where
  "decimal acc [] = Some acc"
| "decimal acc (c # cs) =
     (if 48 \<le> (of_char c :: nat) \<and> (of_char c :: nat) \<le> 57
      then decimal (10 * acc + (of_char c - 48)) cs
      else None)"

definition example_env :: "int env" where
  "example_env =
     \<lparr>isIntegerKey =
        (\<lambda>k. case k of
                Some (Str str) \<Rightarrow>
                  str \<noteq> [] \<and> decimal 0 str \<noteq> None \<and> (hd str \<noteq> CHR ''0'' \<or> length str = 1)
              | _ \<Rightarrow> False),
      toNumber = (\<lambda>str. map_option int (decimal 0 str))\<rparr>"

section \<open>The affected Dependency Sets as the specification describes them\<close>

text \<open>A key is numeric and at least the new length.\<close>

definition numeric_ge :: "('n::linorder) env \<Rightarrow> key \<Rightarrow> 'n option \<Rightarrow> bool" where
  "numeric_ge env k newValue =
     (case k of
        Str str \<Rightarrow> (case (toNumber env str, newValue) of (Some a, Some b) \<Rightarrow> b \<le> a | _ \<Rightarrow> False)
      | Sym _ \<Rightarrow> False)"

definition set_at :: "(key \<times> did) list \<Rightarrow> key \<Rightarrow> did set" where
  "set_at depsMap k = set_option (map_of depsMap k)"

text \<open>
  The description of the affected sets, clause by clause: a \<open>length\<close> write on a
  sequence; otherwise the exact key, and the iteration keys by change kind.
\<close>

definition affected_spec ::
  "('n::linorder) env \<Rightarrow> (key \<times> did) list \<Rightarrow> target \<Rightarrow> TriggerOpTypes \<Rightarrow> key option
     \<Rightarrow> 'n option \<Rightarrow> did set" where
  "affected_spec env depsMap t ty k newValue =
     (if k = Some (Str ''length'') \<and> isArray t
      then set (map snd (filter (\<lambda>kd. fst kd = Str ''length'' \<or> numeric_ge env (fst kd) newValue)
                  depsMap))
      else (case k of None \<Rightarrow> {} | Some k' \<Rightarrow> set_at depsMap k')
           \<union> (if ty = ADD \<and> \<not> isArray t
               then set_at depsMap ITERATE_KEY
                    \<union> (if isMap t then set_at depsMap MAP_KEY_ITERATE_KEY else {})
               else {})
           \<union> (if ty = ADD \<and> isArray t \<and> isIntegerKey env k
               then set_at depsMap (Str ''length'') else {})
           \<union> (if ty = DELETE \<and> \<not> isArray t
               then set_at depsMap ITERATE_KEY
                    \<union> (if isMap t then set_at depsMap MAP_KEY_ITERATE_KEY else {})
               else {})
           \<union> (if ty = SET \<and> isMap t then set_at depsMap ITERATE_KEY else {}))"

text \<open>Every key of the dependency map is a string.\<close>

definition string_keys :: "(key \<times> did) list \<Rightarrow> bool" where
  "string_keys depsMap = list_all (\<lambda>kd. case fst kd of Str _ \<Rightarrow> True | Sym _ \<Rightarrow> False) depsMap"

section \<open>Predicates and abbreviations used in the statements\<close>

text \<open>
  \<open>is_chain par p es\<close>: following the \<open>parent\<close> references from \<open>p\<close> visits exactly the
  effects \<open>es\<close>, in this order, and ends. These are the effects that are running.
\<close>

fun is_chain :: "(eid \<Rightarrow> eid option) \<Rightarrow> eid option \<Rightarrow> eid list \<Rightarrow> bool" where
  "is_chain par p [] = (p = None)"
| "is_chain par p (x # xs) = (p = Some x \<and> is_chain par (par x) xs)"

text \<open>
  The tracking context is well formed: the running effects \<open>es\<close> form the parent chain of
  \<open>activeEffect\<close>, every effect that runs, is subscribed somewhere or backs a computed has
  been created, and \<open>trackOpBit\<close> is the bit of the current depth.
\<close>

definition ctx_ok :: "'n state \<Rightarrow> eid list \<Rightarrow> bool" where
  "ctx_ok s es \<longleftrightarrow>
     is_chain (parents s) (activeEffect s) es
     \<and> (\<forall>e\<in>set es. e < nextEffect s)
     \<and> (\<forall>d. \<forall>e\<in>set (members (depStore s d)). e < nextEffect s)
     \<and> (\<forall>c<nextComputed s. ceffect (computeds s c) < nextEffect s)
     \<and> trackOpBit s = shl1 (effectTrackDepth s)"

text \<open>
  What a call leaves as it found it: the active effect, the depth, the parents of the
  running effects; objects are never freed and a stopped effect stays stopped.
\<close>

definition ctx_frame :: "'n state \<Rightarrow> 'n state \<Rightarrow> eid list \<Rightarrow> bool" where
  "ctx_frame s s' es \<longleftrightarrow>
     activeEffect s' = activeEffect s
     \<and> effectTrackDepth s' = effectTrackDepth s
     \<and> nextEffect s \<le> nextEffect s'
     \<and> nextComputed s \<le> nextComputed s'
     \<and> (\<forall>e\<in>set es. parent (effects s' e) = parent (effects s e))
     \<and> (\<forall>e<nextEffect s. \<not> active (effects s e) \<longrightarrow> \<not> active (effects s' e))"

text \<open>An executor of closure bodies that keeps the tracking context.\<close>

definition keeps :: "('n cmd list \<Rightarrow> 'n state \<Rightarrow> 'n result) \<Rightarrow> bool" where
  "keeps ex \<longleftrightarrow>
     (\<forall>cmds s r s' es. ex cmds s = Some (r, s') \<longrightarrow> ctx_ok s es \<longrightarrow> ctx_ok s' es \<and> ctx_frame s s' es)"

text \<open>
  A step that touches Dependency Sets, dependency lists and counters only, and adds no
  member to a set but the active effect.
\<close>

definition shell_eq :: "'n state \<Rightarrow> 'n state \<Rightarrow> bool" where
  "shell_eq s s' \<longleftrightarrow>
     activeEffect s' = activeEffect s
     \<and> effectTrackDepth s' = effectTrackDepth s
     \<and> trackOpBit s' = trackOpBit s
     \<and> nextEffect s' = nextEffect s
     \<and> nextComputed s' = nextComputed s
     \<and> (\<forall>e. parent (effects s' e) = parent (effects s e)
              \<and> active (effects s' e) = active (effects s e))
     \<and> (\<forall>c. ceffect (computeds s' c) = ceffect (computeds s c))
     \<and> (\<forall>d. set (members (depStore s' d))
              \<subseteq> set (members (depStore s d)) \<union> set_option (activeEffect s))"

text \<open>The Dependency Set of an observable location, when it has one.\<close>

definition dep_of :: "'n state \<Rightarrow> target \<times> key \<Rightarrow> did option" where
  "dep_of s l = (case targetMap s (fst l) of None \<Rightarrow> None | Some m \<Rightarrow> map_of m (snd l))"

text \<open>An effect is subscribed to a location: it is a member of the location's set.\<close>

definition subscribed :: "'n state \<Rightarrow> eid \<Rightarrow> target \<times> key \<Rightarrow> bool" where
  "subscribed s e l =
     (case dep_of s l of None \<Rightarrow> False | Some d \<Rightarrow> e \<in> set (members (depStore s d)))"

text \<open>
  The dependency graph is consistent: a location's set is allocated, two locations do not
  share a set, an effect is in a set exactly when the set is in the effect's list, and
  the sets that are not allocated yet are blank.
\<close>

definition graph_ok :: "'n state \<Rightarrow> bool" where
  "graph_ok s \<longleftrightarrow>
     (\<forall>l d. dep_of s l = Some d \<longrightarrow> d < nextDep s)
     \<and> (\<forall>l l' d. dep_of s l = Some d \<longrightarrow> dep_of s l' = Some d \<longrightarrow> l = l')
     \<and> (\<forall>e d. e \<in> set (members (depStore s d)) \<longleftrightarrow> d \<in> set (deps (effects s e)))
     \<and> (\<forall>d. nextDep s \<le> d \<longrightarrow> depStore s d = createDep [])"

text \<open>No set carries a mark of depth \<open>D\<close> (where depth \<open>D\<close> has a marker bit at all).\<close>

definition markers_clear :: "'n state \<Rightarrow> int \<Rightarrow> bool" where
  "markers_clear s D \<longleftrightarrow>
     (D \<le> maxMarkerBits \<longrightarrow>
        (\<forall>d. n (depStore s d) AND shl1 D = 0 \<and> w (depStore s d) AND shl1 D = 0))"

text \<open>
  Effect \<open>e\<close> is running with tracking enabled, and the newly-tracked marks of its depth
  are on exactly the sets of its dependency list.
\<close>

definition tracking :: "'n state \<Rightarrow> eid \<Rightarrow> bool" where
  "tracking s e \<longleftrightarrow>
     activeEffect s = Some e \<and> shouldTrack s
     \<and> shl1 (effectTrackDepth s) = trackOpBit s
     \<and> distinct (deps (effects s e))
     \<and> (effectTrackDepth s \<le> maxMarkerBits \<longrightarrow>
          (\<forall>d. (n (depStore s d) AND trackOpBit s \<noteq> 0 \<longleftrightarrow> d \<in> set (deps (effects s e)))
               \<and> w (depStore s d) AND trackOpBit s = 0))"

text \<open>What reads made on behalf of the running effect \<open>e\<close> leave unchanged.\<close>

definition tframe :: "'n state \<Rightarrow> 'n state \<Rightarrow> eid \<Rightarrow> bool" where
  "tframe s s' e \<longleftrightarrow>
     (\<forall>l d. dep_of s l = Some d \<longrightarrow> dep_of s' l = Some d)
     \<and> (\<forall>l d. dep_of s' l = Some d \<longrightarrow> dep_of s l = Some d \<or> nextDep s \<le> d)
     \<and> (\<forall>e'. e' \<noteq> e \<longrightarrow> effects s' e' = effects s e')
     \<and> effects s' e = (effects s e)\<lparr>deps := deps (effects s' e)\<rparr>
     \<and> set (deps (effects s e)) \<subseteq> set (deps (effects s' e))
     \<and> (\<forall>d. w (depStore s' d) = w (depStore s d))
     \<and> (\<forall>d b. b AND trackOpBit s = 0 \<longrightarrow> n (depStore s' d) AND b = n (depStore s d) AND b)
     \<and> (\<not> effectTrackDepth s \<le> maxMarkerBits \<longrightarrow> (\<forall>d. n (depStore s' d) = n (depStore s d)))
     \<and> activeEffect s' = activeEffect s \<and> shouldTrack s' = shouldTrack s
     \<and> trackStack s' = trackStack s \<and> effectTrackDepth s' = effectTrackDepth s
     \<and> trackOpBit s' = trackOpBit s \<and> nextEffect s' = nextEffect s
     \<and> computeds s' = computeds s \<and> nextComputed s' = nextComputed s
     \<and> nextDep s \<le> nextDep s'"

text \<open>The effect of \<open>trackEffects\<close> when it subscribes: mark, add, push.\<close>

definition subscribe :: "did \<Rightarrow> eid \<Rightarrow> 'n state \<Rightarrow> 'n state" where
  "subscribe d e s =
     s\<lparr>depStore := (depStore s)
          (d := (depStore s d)
             \<lparr>n := (if effectTrackDepth s \<le> maxMarkerBits
                    then n (depStore s d) OR trackOpBit s else n (depStore s d)),
              members := members (depStore s d) @ [e]\<rparr>),
       effects := (effects s)(e := (effects s e)\<lparr>deps := deps (effects s e) @ [d]\<rparr>)\<rparr>"

text \<open>The effect of \<open>track\<close> when the location has no set yet.\<close>

definition alloc :: "target \<Rightarrow> key \<Rightarrow> 'n state \<Rightarrow> 'n state" where
  "alloc t k s =
     s\<lparr>targetMap := (targetMap s)
           (t \<mapsto> (case targetMap s t of None \<Rightarrow> [] | Some m \<Rightarrow> m) @ [(k, nextDep s)]),
       nextDep := Suc (nextDep s)\<rparr>"

text \<open>A closure body that only reads: one \<open>track\<close> call for each location, in order.\<close>

definition reads :: "(target \<times> key) list \<Rightarrow> 'n cmd list" where
  "reads ls = map (\<lambda>l. Track (fst l) (snd l)) ls"

text \<open>The reads of a body, one after the other.\<close>

definition track_all :: "(target \<times> key) list \<Rightarrow> 'n state \<Rightarrow> 'n state" where
  "track_all ls s = fold (\<lambda>l. track (fst l) (snd l)) ls s"

text \<open>
  A closure body made of reads in segments: the reads of a segment marked \<open>True\<close> are
  made as they are, those of a segment marked \<open>False\<close> between \<open>pauseTracking()\<close> and
  \<open>resetTracking()\<close>. \<open>tracked_reads\<close> are the locations read with tracking as the
  effect found it.
\<close>

fun body_of :: "(bool \<times> (target \<times> key) list) list \<Rightarrow> 'n cmd list" where
  "body_of [] = []"
| "body_of (seg # segs) =
     (if fst seg then reads (snd seg) else [PauseTracking] @ reads (snd seg) @ [ResetTracking])
     @ body_of segs"

definition tracked_reads :: "(bool \<times> (target \<times> key) list) list \<Rightarrow> (target \<times> key) list" where
  "tracked_reads segs = concat (map snd (filter fst segs))"

text \<open>Three observable locations for the examples.\<close>

definition loc_a :: "target \<times> key" where "loc_a = ((PlainObject, 0), Str ''a'')"

definition loc_b :: "target \<times> key" where "loc_b = ((PlainObject, 0), Str ''b'')"

definition loc_c :: "target \<times> key" where "loc_c = ((PlainObject, 1), Str ''c'')"

text \<open>A closure that returns nothing.\<close>

definition no_result :: "nat \<Rightarrow> val" where
  "no_result k = Undefined"








section \<open>The tracking context: what every call keeps\<close>

lemma chain_has_None [simp]: "chain_has par None e = Some False"
  by (subst chain_has.simps) simp

lemma chain_has_Some [simp]:
  "chain_has par (Some q) e = (if q = e then Some True else chain_has par (par q) e)"
  by (subst chain_has.simps) simp

lemma is_chain_chain_has: "is_chain par p es \<Longrightarrow> chain_has par p e = Some (e \<in> set es)"
  by (induction es arbitrary: p) auto

lemma is_chain_cong: "(\<And>x. x \<in> set es \<Longrightarrow> par x = par' x) \<Longrightarrow> is_chain par p es = is_chain par' p es"
  by (induction es arbitrary: p) auto

lemma ctx_frame_refl [simp]: "ctx_frame s s es"
  by (simp add: ctx_frame_def)

lemma ctx_frame_trans: "ctx_frame s s1 es \<Longrightarrow> ctx_frame s1 s2 es \<Longrightarrow> ctx_frame s s2 es"
  by (fastforce simp: ctx_frame_def)

text \<open>fold dep_delete: closed form\<close>

lemma fold_dep_delete:
  "fold (dep_delete e) ds s =
     s\<lparr>depStore := (\<lambda>d. if d \<in> set ds
                          then (depStore s d)\<lparr>members := set_delete e (members (depStore s d))\<rparr>
                          else depStore s d)\<rparr>"
proof (induction ds arbitrary: s)
  case Nil
  show ?case by simp
next
  case (Cons d ds)
  show ?case
    by (simp add: Cons.IH) (auto simp: dep_delete_def set_delete_def fun_eq_iff)
qed

lemma cleanupEffect_eq:
  "cleanupEffect e s =
     s\<lparr>depStore := (\<lambda>d. if d \<in> set (deps (effects s e))
                          then (depStore s d)\<lparr>members := set_delete e (members (depStore s d))\<rparr>
                          else depStore s d),
       effects := (effects s)(e := (effects s e)\<lparr>deps := []\<rparr>)\<rparr>"
  by (simp add: cleanupEffect_def Let_def fold_dep_delete)

lemma shell_eq_refl [simp]: "shell_eq s s"
  by (simp add: shell_eq_def)

lemma shell_eq_trans:
  assumes "shell_eq s s1" and "shell_eq s1 s2"
  shows "shell_eq s s2"
proof -
  have "set (members (depStore s2 d)) \<subseteq> set (members (depStore s d)) \<union> set_option (activeEffect s)" for d
  proof -
    from assms have a: "set (members (depStore s2 d)) \<subseteq> set (members (depStore s1 d)) \<union> set_option (activeEffect s1)"
      and b: "set (members (depStore s1 d)) \<subseteq> set (members (depStore s d)) \<union> set_option (activeEffect s)"
      and c: "activeEffect s1 = activeEffect s"
      by (simp_all add: shell_eq_def)
    show ?thesis using a b unfolding c by blast
  qed
  then show ?thesis using assms by (simp add: shell_eq_def)
qed

lemma is_chain_head: "is_chain par (Some a) es \<Longrightarrow> a \<in> set es"
  by (cases es) auto

lemma shell_wf:
  assumes "shell_eq s s'" and "ctx_ok s es"
  shows "ctx_ok s' es" and "ctx_frame s s' es"
proof -
  have par: "parents s' = parents s"
    using assms(1) by (simp add: shell_eq_def parents_def fun_eq_iff)
  have act: "\<And>a. activeEffect s = Some a \<Longrightarrow> a < nextEffect s"
    using assms(2) by (auto simp: ctx_ok_def dest: is_chain_head)
  have mem: "\<And>d e. e \<in> set (members (depStore s' d)) \<Longrightarrow> e < nextEffect s"
  proof -
    fix d e assume "e \<in> set (members (depStore s' d))"
    with assms(1) have "e \<in> set (members (depStore s d)) \<or> activeEffect s = Some e"
      by (auto simp: shell_eq_def)
    then show "e < nextEffect s" using assms(2) act by (auto simp: ctx_ok_def)
  qed
  show "ctx_ok s' es"
    using assms mem by (simp add: ctx_ok_def par shell_eq_def)
  show "ctx_frame s s' es"
    using assms(1) by (simp add: ctx_frame_def shell_eq_def)
qed

lemma trackEffects_shell:
  "activeEffect s = Some a \<Longrightarrow> shell_eq s (trackEffects d a s)"
  by (auto simp: shell_eq_def trackEffects_def Let_def set_add_def)

lemma depOf_shell: "shell_eq s (snd (depOf t k s))"
  by (auto simp: shell_eq_def depOf_def Let_def createDep_def split: option.splits)

lemma depOf_activeEffect [simp]: "activeEffect (snd (depOf t k s)) = activeEffect s"
  by (simp add: depOf_def Let_def split: option.splits)

lemma track_shell: "shell_eq s (track t k s)"
  by (auto simp: track_def Let_def split: option.splits
      intro!: shell_eq_trans [OF depOf_shell trackEffects_shell])

lemma pauseTracking_shell: "shell_eq s (pauseTracking s)"
  and enableTracking_shell: "shell_eq s (enableTracking s)"
  and resetTracking_shell: "shell_eq s (resetTracking s)"
  by (simp_all add: shell_eq_def pauseTracking_def enableTracking_def resetTracking_def)

lemma cleanupEffect_shell: "shell_eq s (cleanupEffect e s)"
  by (auto simp: shell_eq_def cleanupEffect_eq set_delete_def)

lemma fold_finalizeDep_shell:
  "\<exists>D. fst (fold (finalizeDep e) ds acc) = (fst acc)\<lparr>depStore := D\<rparr>
       \<and> (\<forall>d. set (members (D d)) \<subseteq> set (members (depStore (fst acc) d)))"
proof (induction ds arbitrary: acc)
  case Nil
  have "fst acc = (fst acc)\<lparr>depStore := depStore (fst acc)\<rparr>" by simp
  then show ?case by (metis fold_simps(1) subset_refl)
next
  case (Cons d ds)
  let ?a = "finalizeDep e d acc"
  obtain X where a1: "fst ?a = (fst acc)\<lparr>depStore := X\<rparr>"
    and a2: "\<forall>d'. set (members (X d')) \<subseteq> set (members (depStore (fst acc) d'))"
    by (auto simp: finalizeDep_def Let_def set_delete_def)
  from Cons.IH [of ?a] obtain Y where i1: "fst (fold (finalizeDep e) ds ?a) = (fst ?a)\<lparr>depStore := Y\<rparr>"
    and i2: "\<forall>d'. set (members (Y d')) \<subseteq> set (members (depStore (fst ?a) d'))"
    by blast
  have "fst (fold (finalizeDep e) (d # ds) acc) = (fst acc)\<lparr>depStore := Y\<rparr>"
    by (simp add: i1 a1)
  moreover have "\<forall>d'. set (members (Y d')) \<subseteq> set (members (depStore (fst acc) d'))"
    using i2 a2 by (simp add: a1) blast
  ultimately show ?case by blast
qed

lemma finalizeDepMarkers_shell: "shell_eq s (finalizeDepMarkers e s)"
proof -
  let ?r = "fold (finalizeDep e) (deps (effects s e)) (s, [])"
  from fold_finalizeDep_shell [of e "deps (effects s e)" "(s, [])"]
  obtain D where f1: "fst ?r = s\<lparr>depStore := D\<rparr>"
    and f2: "\<forall>d. set (members (D d)) \<subseteq> set (members (depStore s d))"
    by auto
  show ?thesis
    unfolding finalizeDepMarkers_def Let_def f1 using f2 by (auto simp: shell_eq_def)
qed

lemma trackRefValue_shell: "shell_eq s (trackRefValue c s)"
proof (cases "activeEffect s")
  case None
  then show ?thesis by (simp add: trackRefValue_def)
next
  case (Some a)
  show ?thesis
  proof (cases "shouldTrack s")
    case False
    then show ?thesis by (simp add: trackRefValue_def Some)
  next
    case True
    show ?thesis
    proof (cases "cdep (computeds s c)")
      case (Some d)
      then show ?thesis
        using True \<open>activeEffect s = Some a\<close> by (simp add: trackRefValue_def trackEffects_shell)
    next
      case None
      let ?s1 = "(upd_computed c (\<lambda>x. x\<lparr>cdep := Some (nextDep s)\<rparr>) s)
                         \<lparr>depStore := (depStore s)(nextDep s := createDep []),
                          nextDep := Suc (nextDep s)\<rparr>"
      have 1: "shell_eq s ?s1"
        by (auto simp: shell_eq_def upd_computed_def createDep_def)
      have 2: "shell_eq ?s1 (trackEffects (nextDep s) a ?s1)"
        by (rule trackEffects_shell) (simp add: upd_computed_def \<open>activeEffect s = Some a\<close>)
      show ?thesis
        using True None \<open>activeEffect s = Some a\<close> shell_eq_trans [OF 1 2]
        by (simp add: trackRefValue_def)
    qed
  qed
qed

lemma upd_effect_shell:
  "parent (g (effects s e)) = parent (effects s e) \<Longrightarrow> active (g (effects s e)) = active (effects s e)
   \<Longrightarrow> shell_eq s (upd_effect e g s)"
  by (auto simp: shell_eq_def upd_effect_def)

lemma upd_computed_shell:
  "ceffect (g (computeds s c)) = ceffect (computeds s c) \<Longrightarrow> shell_eq s (upd_computed c g s)"
  by (auto simp: shell_eq_def upd_computed_def)

lemma enter_fn_shell: "shell_eq s (enter_fn e s)"
  unfolding enter_fn_def by (rule upd_effect_shell) simp_all

lemma seq_keeps:
  assumes step: "\<And>c s r s'. c \<in> set cs \<Longrightarrow> g c s = Some (r, s') \<Longrightarrow> ctx_ok s es \<Longrightarrow> Q c s
                   \<Longrightarrow> ctx_ok s' es \<and> ctx_frame s s' es"
    and stable: "\<And>c s s'. c \<in> set cs \<Longrightarrow> Q c s \<Longrightarrow> ctx_frame s s' es \<Longrightarrow> Q c s'"
  shows "seq g cs s = Some (r, s') \<Longrightarrow> ctx_ok s es \<Longrightarrow> \<forall>c\<in>set cs. Q c s \<Longrightarrow> ctx_ok s' es \<and> ctx_frame s s' es"
  using step stable
proof (induction cs arbitrary: s)
  case Nil
  then show ?case by simp
next
  case (Cons c cs)
  show ?case
  proof (cases "g c s")
    case None
    with Cons.prems(1) show ?thesis by simp
  next
    case (Some a)
    obtain r1 s1 where a: "a = (r1, s1)" by (cases a)
    have 1: "ctx_ok s1 es \<and> ctx_frame s s1 es"
      using Cons.prems(4) [of c s r1 s1] Some a Cons.prems(2,3) by simp
    show ?thesis
    proof (cases r1)
      case Thrown
      with Cons.prems(1) Some a 1 show ?thesis by simp
    next
      case (Normal v)
      with Cons.prems(1) Some a have rest: "seq g cs s1 = Some (r, s')" by simp
      have Q1: "\<forall>c'\<in>set cs. Q c' s1"
        using Cons.prems(3,5) 1 by auto
      have "ctx_ok s' es \<and> ctx_frame s1 s' es"
        by (rule Cons.IH [OF rest _ Q1]) (use 1 Cons.prems(4,5) in auto)
      with 1 show ?thesis by (auto intro: ctx_frame_trans)
    qed
  qed
qed

lemma stop_with_keeps:
  assumes K: "keeps ex" and R: "stop_with ex e s = Some (r, s')" and W: "ctx_ok s es"
  shows "ctx_ok s' es \<and> ctx_frame s s' es"
proof (cases "activeEffect s = Some e")
  case True
  have "shell_eq s (upd_effect e (\<lambda>x. x\<lparr>deferStop := True\<rparr>) s)"
    by (rule upd_effect_shell) simp_all
  with True R W show ?thesis by (auto simp: stop_with_def dest: shell_wf)
next
  case False
  show ?thesis
  proof (cases "active (effects s e)")
    case inactive: False
    with False R W show ?thesis by (simp add: stop_with_def)
  next
    case True
    let ?s1 = "cleanupEffect e s"
    have w1: "ctx_ok ?s1 es" and f1: "ctx_frame s ?s1 es"
      using shell_wf [OF cleanupEffect_shell W] by auto
    have off: "ctx_ok (upd_effect e (\<lambda>x. x\<lparr>active := False\<rparr>) s2) es
               \<and> ctx_frame s2 (upd_effect e (\<lambda>x. x\<lparr>active := False\<rparr>) s2) es" if "ctx_ok s2 es" for s2
    proof -
      have "parents (upd_effect e (\<lambda>x. x\<lparr>active := False\<rparr>) s2) = parents s2"
        by (simp add: parents_def upd_effect_def fun_eq_iff)
      then show ?thesis
        using that by (simp add: ctx_ok_def ctx_frame_def) (simp add: upd_effect_def)
    qed
    show ?thesis
    proof (cases "onStop (effects ?s1 e)")
      case None
      with False True R have "s' = upd_effect e (\<lambda>x. x\<lparr>active := False\<rparr>) ?s1"
        by (simp add: stop_with_def Let_def)
      with off [OF w1] f1 show ?thesis by (auto intro: ctx_frame_trans)
    next
      case (Some hook)
      let ?s2 = "upd_effect e (\<lambda>x. x\<lparr>onStop_calls := Suc (onStop_calls x)\<rparr>) ?s1"
      have "shell_eq ?s1 ?s2" by (rule upd_effect_shell) simp_all
      from shell_wf [OF this w1] have w2: "ctx_ok ?s2 es" and f2: "ctx_frame ?s1 ?s2 es" by auto
      from False True R Some obtain c s3 where E: "ex hook ?s2 = Some (c, s3)"
        by (auto simp: stop_with_def Let_def split: option.splits)
      from K E w2 have w3: "ctx_ok s3 es" and f3: "ctx_frame ?s2 s3 es" by (auto simp: keeps_def)
      have f03: "ctx_frame s s3 es" using f1 f2 f3 by (blast intro: ctx_frame_trans)
      show ?thesis
      proof (cases c)
        case Thrown
        with False True R Some E have "s' = s3" by (simp add: stop_with_def Let_def)
        with w3 f03 show ?thesis by simp
      next
        case (Normal v)
        with False True R Some E have "s' = upd_effect e (\<lambda>x. x\<lparr>active := False\<rparr>) s3"
          by (simp add: stop_with_def Let_def)
        with off [OF w3] f03 show ?thesis by (auto intro: ctx_frame_trans)
      qed
    qed
  qed
qed

lemma run_enter_eq:
  "enter_fn e (run_enter e s) =
     s\<lparr>depStore := (\<lambda>d. if d \<in> set (deps (effects s e))
                          then (depStore s d)\<lparr>members := set_delete e (members (depStore s d))\<rparr>
                          else depStore s d),
       effects := (effects s)
          (e := (effects s e)\<lparr>parent := activeEffect s, deps := [],
                                fn_calls := Suc (fn_calls (effects s e))\<rparr>),
       activeEffect := Some e, shouldTrack := True,
       effectTrackDepth := effectTrackDepth s + 1,
       trackOpBit := shl1 (effectTrackDepth s + 1)\<rparr>"
  by (simp add: enter_fn_def run_enter_def cleanupEffect_eq upd_effect_def cong: if_cong)

lemma run_enter_facts:
  "activeEffect (enter_fn e (run_enter e s)) = Some e"
  "effectTrackDepth (enter_fn e (run_enter e s)) = effectTrackDepth s + 1"
  "trackOpBit (enter_fn e (run_enter e s)) = shl1 (effectTrackDepth s + 1)"
  "shouldTrack (enter_fn e (run_enter e s)) = True"
  "trackStack (enter_fn e (run_enter e s)) = trackStack s"
  "nextEffect (enter_fn e (run_enter e s)) = nextEffect s"
  "nextComputed (enter_fn e (run_enter e s)) = nextComputed s"
  "nextDep (enter_fn e (run_enter e s)) = nextDep s"
  "targetMap (enter_fn e (run_enter e s)) = targetMap s"
  "computeds (enter_fn e (run_enter e s)) = computeds s"
  "active (effects (enter_fn e (run_enter e s)) x) = active (effects s x)"
  "deps (effects (enter_fn e (run_enter e s)) e) = []"
  by (simp_all add: run_enter_eq)

lemma run_enter_parents:
  "parents (enter_fn e (run_enter e s)) = (parents s)(e := activeEffect s)"
  by (simp add: run_enter_eq parents_def fun_eq_iff)

lemma run_enter_members:
  "set (members (depStore (enter_fn e (run_enter e s)) d)) \<subseteq> set (members (depStore s d))"
  by (simp add: run_enter_eq set_delete_def)

lemma run_enter_wf:
  assumes W: "ctx_ok s es" and N: "e \<notin> set es" and B: "e < nextEffect s"
  shows "ctx_ok (enter_fn e (run_enter e s)) (e # es)"
proof -
  have "is_chain ((parents s)(e := activeEffect s)) (activeEffect s) es
      = is_chain (parents s) (activeEffect s) es"
    by (rule is_chain_cong) (use N in auto)
  moreover have "\<forall>d. \<forall>x\<in>set (members (depStore (enter_fn e (run_enter e s)) d)). x < nextEffect s"
    using W run_enter_members [of e s] unfolding ctx_ok_def by blast
  ultimately show ?thesis
    using W B by (simp add: ctx_ok_def run_enter_facts run_enter_parents)
qed

lemma run_exit_wf:
  assumes W2: "ctx_ok s2 (e # es)" and N: "e \<notin> set es"
    and A: "activeEffect s2 = Some e"
  shows "ctx_ok (run_exit e b s2) es"
    and "activeEffect (run_exit e b s2) = parent (effects s2 e)"
    and "effectTrackDepth (run_exit e b s2) = effectTrackDepth s2 - 1"
    and "nextEffect (run_exit e b s2) = nextEffect s2"
    and "nextComputed (run_exit e b s2) = nextComputed s2"
    and "shouldTrack (run_exit e b s2) = b"
    and "\<forall>x. x \<noteq> e \<longrightarrow> parent (effects (run_exit e b s2) x) = parent (effects s2 x)"
    and "parent (effects (run_exit e b s2) e) = None"
    and "\<forall>x. active (effects (run_exit e b s2) x) = active (effects s2 x)"
proof -
  define s1 where "s1 = (if effectTrackDepth s2 \<le> maxMarkerBits then finalizeDepMarkers e s2 else s2)"
  have sh: "shell_eq s2 s1"
    by (simp add: s1_def finalizeDepMarkers_shell)
  have rx: "run_exit e b s2 = upd_effect e (\<lambda>x. x\<lparr>parent := None\<rparr>)
           (s1\<lparr>effectTrackDepth := effectTrackDepth s1 - 1,
               trackOpBit := shl1 (effectTrackDepth s1 - 1),
               activeEffect := parent (effects s1 e),
               shouldTrack := b\<rparr>)"
    by (simp add: run_exit_def s1_def Let_def)
  from shell_wf [OF sh W2] have W1: "ctx_ok s1 (e # es)" by simp
  have pe: "parent (effects s1 e) = parent (effects s2 e)"
    and px: "\<And>x. parent (effects s1 x) = parent (effects s2 x)"
    and ax: "\<And>x. active (effects s1 x) = active (effects s2 x)"
    and d1: "effectTrackDepth s1 = effectTrackDepth s2"
    and n1: "nextEffect s1 = nextEffect s2" "nextComputed s1 = nextComputed s2"
    using sh by (simp_all add: shell_eq_def)
  show "activeEffect (run_exit e b s2) = parent (effects s2 e)"
    "effectTrackDepth (run_exit e b s2) = effectTrackDepth s2 - 1"
    "nextEffect (run_exit e b s2) = nextEffect s2"
    "nextComputed (run_exit e b s2) = nextComputed s2"
    "shouldTrack (run_exit e b s2) = b"
    "\<forall>x. x \<noteq> e \<longrightarrow> parent (effects (run_exit e b s2) x) = parent (effects s2 x)"
    "parent (effects (run_exit e b s2) e) = None"
    "\<forall>x. active (effects (run_exit e b s2) x) = active (effects s2 x)"
    by (simp_all add: rx upd_effect_def pe px ax d1 n1)
  have ch: "is_chain (parents s1) (parent (effects s1 e)) es"
    using W1 sh A by (simp add: ctx_ok_def shell_eq_def parents_def)
  have "is_chain (parents (run_exit e b s2)) (parent (effects s1 e)) es
      = is_chain (parents s1) (parent (effects s1 e)) es"
    by (rule is_chain_cong) (use N in \<open>auto simp: rx parents_def upd_effect_def\<close>)
  with ch W1 show "ctx_ok (run_exit e b s2) es"
    by (simp add: ctx_ok_def) (simp add: rx upd_effect_def)
qed

lemma run_with_keeps:
  assumes K: "keeps ex" and R: "run_with ex e s = Some (r, s')" and W: "ctx_ok s es"
    and B: "e < nextEffect s"
  shows "ctx_ok s' es \<and> ctx_frame s s' es"
proof (cases "active (effects s e)")
  case False
  from shell_wf [OF enter_fn_shell W] have w1: "ctx_ok (enter_fn e s) es" and f1: "ctx_frame s (enter_fn e s) es"
    by auto
  from False R obtain c where "ex (fn (effects s e)) (enter_fn e s) = Some (c, s')"
    by (auto simp: run_with_def split: option.splits)
  with K w1 have "ctx_ok s' es \<and> ctx_frame (enter_fn e s) s' es" by (auto simp: keeps_def)
  with f1 show ?thesis by (auto intro: ctx_frame_trans)
next
  case True
  have ch: "chain_has (parents s) (activeEffect s) e = Some (e \<in> set es)"
    using W by (auto simp: ctx_ok_def intro: is_chain_chain_has)
  show ?thesis
  proof (cases "e \<in> set es")
    case inside: True
    with True R ch W show ?thesis by (simp add: run_with_def)
  next
    case False
    let ?s1 = "enter_fn e (run_enter e s)"
    have w1: "ctx_ok ?s1 (e # es)" by (rule run_enter_wf [OF W False B])
    from True False R ch obtain c s2 where E: "ex (fn (effects s e)) ?s1 = Some (c, s2)"
      by (auto simp: run_with_def split: option.splits)
    from K E w1 have w2: "ctx_ok s2 (e # es)" and f2: "ctx_frame ?s1 s2 (e # es)"
      by (auto simp: keeps_def)
    have a2: "activeEffect s2 = Some e"
      using f2 by (simp add: ctx_frame_def run_enter_facts)
    let ?s3 = "run_exit e (shouldTrack s) s2"
    note x = run_exit_wf [OF w2 False a2, of "shouldTrack s"]
    have pe: "parent (effects s2 e) = activeEffect s"
      using f2 run_enter_parents [of e s] by (simp add: ctx_frame_def parents_def fun_eq_iff)
    have f3: "ctx_frame s ?s3 es"
      unfolding ctx_frame_def
    proof (intro conjI ballI allI impI)
      show "activeEffect ?s3 = activeEffect s" using x(2) pe by simp
      show "effectTrackDepth ?s3 = effectTrackDepth s"
        using x(3) f2 by (simp add: ctx_frame_def run_enter_facts)
      show "nextEffect s \<le> nextEffect ?s3" using x(4) f2 by (simp add: ctx_frame_def run_enter_facts)
      show "nextComputed s \<le> nextComputed ?s3" using x(5) f2 by (simp add: ctx_frame_def run_enter_facts)
    next
      fix y assume y: "y \<in> set es"
      with False have ne: "y \<noteq> e" by auto
      have "parent (effects s2 y) = parent (effects ?s1 y)" using f2 y by (simp add: ctx_frame_def)
      also have "\<dots> = parent (effects s y)"
        using run_enter_parents [of e s] ne by (simp add: parents_def fun_eq_iff)
      finally show "parent (effects ?s3 y) = parent (effects s y)" using x(7) ne by simp
    next
      fix y assume y: "y < nextEffect s" "\<not> active (effects s y)"
      then have "\<not> active (effects s2 y)"
        using f2 by (simp add: ctx_frame_def run_enter_facts)
      then show "\<not> active (effects ?s3 y)" using x(9) by simp
    qed
    have w3: "ctx_ok ?s3 es" by (rule x(1))
    show ?thesis
    proof (cases "deferStop (effects ?s3 e)")
      case nostop: False
      with True False R ch E have "s' = ?s3"
        by (simp add: run_with_def Let_def)
      with w3 f3 show ?thesis by simp
    next
      case True
      with \<open>active (effects s e)\<close> False R ch E obtain c' where S: "stop_with ex e ?s3 = Some (c', s')"
        by (auto simp: run_with_def Let_def split: option.splits completion.splits)
      from stop_with_keeps [OF K S w3] f3 show ?thesis by (auto intro: ctx_frame_trans)
    qed
  qed
qed

lemma forget_Some: "forget g = Some (r, s') \<Longrightarrow> \<exists>r'. g = Some (r', s')"
  by (auto simp: forget_def split: option.splits completion.splits)

lemma triggerEffect_with_keeps:
  assumes K: "keeps ex" and R: "triggerEffect_with ex e s = Some (r, s')" and W: "ctx_ok s es"
    and B: "e < nextEffect s"
  shows "ctx_ok s' es \<and> ctx_frame s s' es"
proof (cases "activeEffect s \<noteq> Some e \<or> allowRecurse (effects s e)")
  case False
  with R W show ?thesis by (auto simp: triggerEffect_with_def)
next
  case True
  show ?thesis
  proof (cases "scheduler (effects s e)")
    case None
    with True R obtain r' where "run_with ex e s = Some (r', s')"
      by (auto simp: triggerEffect_with_def dest: forget_Some)
    from run_with_keeps [OF K this W B] show ?thesis .
  next
    case (Some sch)
    with True R obtain r' where "ex sch s = Some (r', s')"
      by (auto simp: triggerEffect_with_def dest: forget_Some)
    with K W show ?thesis by (auto simp: keeps_def)
  qed
qed

lemma triggerEffects_with_keeps:
  assumes K: "keeps ex" and R: "triggerEffects_with ex xs s = Some (r, s')" and W: "ctx_ok s es"
    and B: "\<forall>e\<in>set xs. e < nextEffect s"
  shows "ctx_ok s' es \<and> ctx_frame s s' es"
proof (rule seq_keeps [where g = "triggerEffect_with ex" and Q = "\<lambda>e s. e < nextEffect s" and cs = xs])
  show "seq (triggerEffect_with ex) xs s = Some (r, s')"
    using R by (simp add: triggerEffects_with_def)
  show "ctx_ok s es" by (rule W)
  show "\<forall>c\<in>set xs. c < nextEffect s" by (rule B)
next
  fix c s r s'
  assume "triggerEffect_with ex c s = Some (r, s')" "ctx_ok s es" "c < nextEffect s"
  then show "ctx_ok s' es \<and> ctx_frame s s' es" by (rule triggerEffect_with_keeps [OF K])
next
  fix c :: eid and s s' :: "'a state"
  assume "c < nextEffect s" "ctx_frame s s' es"
  then show "c < nextEffect s'" by (simp add: ctx_frame_def)
qed

lemma set_new_Set [simp]: "set (new_Set xs) = set xs"
  by (induction xs) auto

lemma distinct_new_Set [simp]: "distinct (new_Set xs)"
  by (induction xs) (auto simp: distinct_removeAll)

lemma trigger_effects_bounded:
  assumes "ctx_ok s es"
  shows "\<forall>e\<in>set (trigger_effects s ds). e < nextEffect s"
proof -
  have m: "\<And>d e. e \<in> set (members (depStore s d)) \<Longrightarrow> e < nextEffect s"
    using assms by (auto simp: ctx_ok_def)
  show ?thesis
    by (auto simp: trigger_effects_def dest: m split: option.splits)
qed

lemma trigger_with_keeps:
  assumes K: "keeps ex" and R: "trigger_with env ex t ty k nv s = Some (r, s')" and W: "ctx_ok s es"
  shows "ctx_ok s' es \<and> ctx_frame s s' es"
proof (cases "targetMap s t")
  case None
  with R W show ?thesis by (simp add: trigger_with_def)
next
  case (Some m)
  show ?thesis
  proof (cases "trigger_deps env m t ty k nv")
    case (Inl err)
    with Some R W show ?thesis by (simp add: trigger_with_def)
  next
    case (Inr ds)
    with Some R have "triggerEffects_with ex (trigger_effects s ds) s = Some (r, s')"
      by (simp add: trigger_with_def)
    from triggerEffects_with_keeps [OF K this W trigger_effects_bounded [OF W]] show ?thesis .
  qed
qed

lemma computed_scheduler_keeps:
  assumes K: "keeps ex" and R: "computed_scheduler ex c s = Some (r, s')" and W: "ctx_ok s es"
  shows "ctx_ok s' es \<and> ctx_frame s s' es"
proof (cases "dirty (computeds s c)")
  case True
  with R W show ?thesis by (simp add: computed_scheduler_def)
next
  case False
  let ?s1 = "upd_computed c (\<lambda>x. x\<lparr>dirty := True\<rparr>) s"
  have "shell_eq s ?s1" by (rule upd_computed_shell) simp
  from shell_wf [OF this W] have w1: "ctx_ok ?s1 es" and f1: "ctx_frame s ?s1 es" by auto
  show ?thesis
  proof (cases "cdep (computeds ?s1 c)")
    case None
    with False R w1 f1 show ?thesis by (simp add: computed_scheduler_def Let_def)
  next
    case (Some d)
    with False R have T: "triggerEffects_with ex (members (depStore ?s1 d)) ?s1 = Some (r, s')"
      by (simp add: computed_scheduler_def Let_def)
    have "\<forall>e\<in>set (members (depStore ?s1 d)). e < nextEffect ?s1"
      using w1 by (auto simp: ctx_ok_def)
    from triggerEffects_with_keeps [OF K T w1 this] f1 show ?thesis
      by (auto intro: ctx_frame_trans)
  qed
qed

lemma get_value_with_keeps:
  assumes K: "keeps ex" and R: "get_value_with ex c s = Some (r, s')" and W: "ctx_ok s es"
    and B: "c < nextComputed s"
  shows "ctx_ok s' es \<and> ctx_frame s s' es"
proof -
  let ?s1 = "trackRefValue c s"
  from shell_wf [OF trackRefValue_shell W] have w1: "ctx_ok ?s1 es" and f1: "ctx_frame s ?s1 es" by auto
  have ce: "ceffect (computeds ?s1 c) = ceffect (computeds s c)"
    and nc: "nextComputed ?s1 = nextComputed s" and ne: "nextEffect ?s1 = nextEffect s"
    using trackRefValue_shell [of s c] by (simp_all add: shell_eq_def)
  show ?thesis
  proof (cases "dirty (computeds ?s1 c) \<or> \<not> cacheable (computeds ?s1 c)")
    case False
    with R w1 f1 show ?thesis by (auto simp: get_value_with_def Let_def)
  next
    case True
    let ?s2 = "upd_computed c (\<lambda>x. x\<lparr>dirty := False\<rparr>) ?s1"
    have "shell_eq ?s1 ?s2" by (rule upd_computed_shell) simp
    from shell_wf [OF this w1] have w2: "ctx_ok ?s2 es" and f2: "ctx_frame ?s1 ?s2 es" by auto
    have b2: "ceffect (computeds ?s1 c) < nextEffect ?s2"
      using W B by (simp add: ce ctx_ok_def upd_computed_def ne)
    from True R obtain r2 s2 where E: "run_with ex (ceffect (computeds ?s1 c)) ?s2 = Some (r2, s2)"
      by (auto simp: get_value_with_def Let_def split: option.splits)
    from run_with_keeps [OF K E w2 b2] have w3: "ctx_ok s2 es" and f3: "ctx_frame ?s2 s2 es" by auto
    have f03: "ctx_frame s s2 es" using f1 f2 f3 by (blast intro: ctx_frame_trans)
    show ?thesis
    proof (cases r2)
      case Thrown
      with True R E have "s' = s2" by (auto simp: get_value_with_def Let_def)
      with w3 f03 show ?thesis by simp
    next
      case (Normal v)
      with True R E have s': "s' = upd_computed c (\<lambda>x. x\<lparr>cvalue := v\<rparr>) s2"
        by (auto simp: get_value_with_def Let_def)
      have "shell_eq s2 s'" unfolding s' by (rule upd_computed_shell) simp
      from shell_wf [OF this w3] f03 show ?thesis by (auto intro: ctx_frame_trans)
    qed
  qed
qed

lemma new_user_effect_wf:
  assumes W: "ctx_ok s es"
  shows "ctx_ok (new_user_effect body res sch rc hook s) es"
    and "ctx_frame s (new_user_effect body res sch rc hook s) es"
proof -
  let ?s1 = "new_user_effect body res sch rc hook s"
  have b: "\<And>x. x \<in> set es \<Longrightarrow> x < nextEffect s" using W by (simp add: ctx_ok_def)
  have "is_chain (parents ?s1) (activeEffect s) es = is_chain (parents s) (activeEffect s) es"
    by (rule is_chain_cong) (use b in \<open>auto simp: new_user_effect_def parents_def\<close>)
  then show "ctx_ok ?s1 es"
    using W by (simp add: ctx_ok_def) (auto simp: new_user_effect_def less_Suc_eq)
  show "ctx_frame s ?s1 es"
    using b by (auto simp: ctx_frame_def new_user_effect_def)
qed

lemma new_computed_wf:
  assumes W: "ctx_ok s es"
  shows "ctx_ok (new_computed getter res isSSR s) es"
    and "ctx_frame s (new_computed getter res isSSR s) es"
proof -
  let ?s1 = "new_computed getter res isSSR s"
  have b: "\<And>x. x \<in> set es \<Longrightarrow> x < nextEffect s" using W by (simp add: ctx_ok_def)
  have "is_chain (parents ?s1) (activeEffect s) es = is_chain (parents s) (activeEffect s) es"
    by (rule is_chain_cong) (use b in \<open>auto simp: new_computed_def parents_def Let_def\<close>)
  then show "ctx_ok ?s1 es"
    using W by (simp add: ctx_ok_def) (auto simp: new_computed_def Let_def less_Suc_eq)
  show "ctx_frame s ?s1 es"
    using b by (auto simp: ctx_frame_def new_computed_def Let_def)
qed

lemma exec1_keeps:
  assumes K: "keeps ex" and R: "exec1 env ex c s = Some (r, s')" and W: "ctx_ok s es"
  shows "ctx_ok s' es \<and> ctx_frame s s' es"
proof (cases c)
  case (Track t k)
  with R shell_wf [OF track_shell W, of t k] show ?thesis by auto
next
  case (Trigger t ty k nv)
  with R trigger_with_keeps [OF K _ W] show ?thesis by auto
next
  case (Run e)
  with R W run_with_keeps [OF K _ W] show ?thesis
    by (auto split: if_splits dest!: forget_Some)
next
  case (Stop e)
  with R W stop_with_keeps [OF K _ W] show ?thesis by (auto split: if_splits)
next
  case PauseTracking
  with R shell_wf [OF pauseTracking_shell W] show ?thesis by auto
next
  case EnableTracking
  with R shell_wf [OF enableTracking_shell W] show ?thesis by auto
next
  case ResetTracking
  with R shell_wf [OF resetTracking_shell W] show ?thesis by auto
next
  case Throw
  with R W show ?thesis by auto
next
  case (Effect body res lazy sch rc hook)
  let ?s1 = "new_user_effect body res sch rc hook s"
  note n = new_user_effect_wf [OF W, of body res sch rc hook]
  show ?thesis
  proof (cases lazy)
    case True
    with Effect R n show ?thesis by auto
  next
    case False
    with Effect R obtain r' where E: "run_with ex (nextEffect s) ?s1 = Some (r', s')"
      by (auto dest!: forget_Some)
    have "nextEffect s < nextEffect ?s1" by (simp add: new_user_effect_def)
    from run_with_keeps [OF K E n(1) this] n(2) show ?thesis by (auto intro: ctx_frame_trans)
  qed
next
  case (Computed getter res isSSR)
  with R new_computed_wf [OF W, of getter res isSSR] show ?thesis by auto
next
  case (GetValue c')
  with R W get_value_with_keeps [OF K _ W] show ?thesis
    by (auto split: if_splits dest!: forget_Some)
next
  case (ComputedScheduler c')
  with R W computed_scheduler_keeps [OF K _ W] show ?thesis by (auto split: if_splits)
qed

lemma exec_keeps: "keeps (exec env f)"
proof (induction f)
  case 0
  show ?case by (simp add: keeps_def)
next
  case (Suc f)
  show ?case
    unfolding keeps_def
  proof (intro allI impI)
    fix cmds s r s' es
    assume R: "exec env (Suc f) cmds s = Some (r, s')" and W: "ctx_ok s es"
    show "ctx_ok s' es \<and> ctx_frame s s' es"
    proof (rule seq_keeps [where g = "exec1 env (exec env f)" and Q = "\<lambda>_ _. True" and cs = cmds])
      show "seq (exec1 env (exec env f)) cmds s = Some (r, s')" using R by simp
      show "ctx_ok s es" by (rule W)
    next
      fix c s r s'
      assume "exec1 env (exec env f) c s = Some (r, s')" "ctx_ok s es"
      then show "ctx_ok s' es \<and> ctx_frame s s' es" by (rule exec1_keeps [OF Suc])
    qed simp_all
  qed
qed

section \<open>Marker bits\<close>

lemma shl1_nz: "shl1 k \<noteq> 0"
proof
  assume "shl1 k = 0"
  then have "bit (push_bit (nat (k mod 32)) (1 :: 32 word)) (nat (k mod 32)) = bit (0 :: 32 word) (nat (k mod 32))"
    by (simp add: shl1_def)
  moreover have "nat (k mod 32) < 32" by simp
  ultimately show False by (simp add: bit_simps)
qed

lemma or_and_self: "(x OR m) AND m = (m :: 32 word)"
  by (auto simp: bit_eq_iff bit_simps)

lemma andnot_and_self: "(x AND NOT m) AND m = (0 :: 32 word)"
  by (auto simp: bit_eq_iff bit_simps)

lemma or_and_disjoint: "b AND m = 0 \<Longrightarrow> (x OR m) AND b = x AND (b :: 32 word)"
  by (auto simp: bit_eq_iff bit_simps)

lemma andnot_and_disjoint: "b AND m = 0 \<Longrightarrow> (x AND NOT m) AND b = x AND (b :: 32 word)"
  by (auto simp: bit_eq_iff bit_simps)

lemma andnot_id: "x AND m = 0 \<Longrightarrow> x AND NOT m = (x :: 32 word)"
  by (auto simp: bit_eq_iff bit_simps)

lemma shl1_succ_disjoint: "shl1 k AND shl1 (k + 1) = 0"
proof -
  have ne: "nat (k mod 32) \<noteq> nat ((k + 1) mod 32)"
  proof
    assume "nat (k mod 32) = nat ((k + 1) mod 32)"
    then have "k mod 32 = (k + 1) mod 32" by simp
    then show False by (simp add: mod_eq_dvd_iff)
  qed
  show ?thesis
    unfolding shl1_def using ne by (auto simp: bit_eq_iff bit_simps)
qed

section \<open>Tracking one read\<close>

lemma graph_okD1: "graph_ok s \<Longrightarrow> dep_of s l = Some d \<Longrightarrow> d < nextDep s"
  unfolding graph_ok_def by blast

lemma graph_okD2: "graph_ok s \<Longrightarrow> dep_of s l = Some d \<Longrightarrow> dep_of s l' = Some d \<Longrightarrow> l = l'"
  unfolding graph_ok_def by blast

lemma graph_okD3: "graph_ok s \<Longrightarrow> e \<in> set (members (depStore s d)) \<longleftrightarrow> d \<in> set (deps (effects s e))"
  unfolding graph_ok_def by blast

lemma graph_okD4: "graph_ok s \<Longrightarrow> nextDep s \<le> d \<Longrightarrow> depStore s d = createDep []"
  unfolding graph_ok_def by blast

lemma graph_okI:
  assumes "\<And>l d. dep_of s l = Some d \<Longrightarrow> d < nextDep s"
    and "\<And>l l' d. dep_of s l = Some d \<Longrightarrow> dep_of s l' = Some d \<Longrightarrow> l = l'"
    and "\<And>e d. e \<in> set (members (depStore s d)) \<longleftrightarrow> d \<in> set (deps (effects s e))"
    and "\<And>d. nextDep s \<le> d \<Longrightarrow> depStore s d = createDep []"
  shows "graph_ok s"
  unfolding graph_ok_def using assms by blast

lemma graph_ok_deps_alloc:
  assumes "graph_ok s" and "d \<in> set (deps (effects s e))"
  shows "d < nextDep s"
proof (rule ccontr)
  assume "\<not> d < nextDep s"
  with assms(1) have "depStore s d = createDep []" by (simp add: graph_okD4)
  then have "members (depStore s d) = []" by (simp add: createDep_def)
  moreover from assms have "e \<in> set (members (depStore s d))" by (simp add: graph_okD3)
  ultimately show False by simp
qed

lemma depOf_old: "dep_of s (t, k) = Some d \<Longrightarrow> depOf t k s = (d, s)"
  by (auto simp: dep_of_def depOf_def split: option.splits)

lemma depOf_new:
  assumes "dep_of s (t, k) = None" and "graph_ok s"
  shows "depOf t k s =
     (nextDep s,
      s\<lparr>targetMap := (targetMap s)
           (t \<mapsto> (case targetMap s t of None \<Rightarrow> [] | Some m \<Rightarrow> m) @ [(k, nextDep s)]),
        nextDep := Suc (nextDep s)\<rparr>)"
proof -
  have "depStore s (nextDep s) = createDep []"
    using assms(2) by (simp add: graph_okD4)
  then have "(depStore s)(nextDep s := createDep []) = depStore s"
    by (metis fun_upd_triv)
  then show ?thesis
    using assms(1) by (auto simp: dep_of_def depOf_def split: option.splits)
qed

lemma trackEffects_tracking:
  assumes T: "tracking s e"
    and M: "e \<in> set (members (depStore s d)) \<longleftrightarrow> d \<in> set (deps (effects s e))"
  shows "trackEffects d e s =
     (if d \<in> set (deps (effects s e)) then s
      else s\<lparr>depStore := (depStore s)
                (d := (depStore s d)
                   \<lparr>n := (if effectTrackDepth s \<le> maxMarkerBits
                          then n (depStore s d) OR trackOpBit s else n (depStore s d)),
                    members := members (depStore s d) @ [e]\<rparr>),
             effects := (effects s)(e := (effects s e)\<lparr>deps := deps (effects s e) @ [d]\<rparr>)\<rparr>)"
proof (cases "effectTrackDepth s \<le> maxMarkerBits")
  case True
  with T have mk: "n (depStore s d) AND trackOpBit s \<noteq> 0 \<longleftrightarrow> d \<in> set (deps (effects s e))"
    and wk: "w (depStore s d) AND trackOpBit s = 0"
    unfolding tracking_def by blast+
  show ?thesis
  proof (cases "d \<in> set (deps (effects s e))")
    case inlist: True
    with mk True show ?thesis
      by (simp add: trackEffects_def newTracked_def Let_def)
  next
    case False
    with mk M True wk show ?thesis
      by (simp add: trackEffects_def newTracked_def wasTracked_def Let_def set_add_def)
  qed
next
  case False
  show ?thesis
  proof (cases "d \<in> set (deps (effects s e))")
    case inlist: True
    with M False show ?thesis
      by (simp add: trackEffects_def Let_def)
  next
    case notin: False
    with M False show ?thesis
      by (simp add: trackEffects_def Let_def set_add_def)
  qed
qed

lemma tframe_refl [simp]: "tframe s s e"
  by (simp add: tframe_def)

lemma tframe_trans:
  assumes a: "tframe s s1 e" and b: "tframe s1 s2 e"
  shows "tframe s s2 e"
proof -
  from a have a1: "\<And>l d. dep_of s l = Some d \<Longrightarrow> dep_of s1 l = Some d"
    and a2: "\<And>l d. dep_of s1 l = Some d \<Longrightarrow> dep_of s l = Some d \<or> nextDep s \<le> d"
    and a3: "\<And>e'. e' \<noteq> e \<Longrightarrow> effects s1 e' = effects s e'"
    and a4: "effects s1 e = (effects s e)\<lparr>deps := deps (effects s1 e)\<rparr>"
    and a5: "set (deps (effects s e)) \<subseteq> set (deps (effects s1 e))"
    and a6: "\<And>d. w (depStore s1 d) = w (depStore s d)"
    and a7: "\<And>d m. m AND trackOpBit s = 0 \<Longrightarrow> n (depStore s1 d) AND m = n (depStore s d) AND m"
    and a8: "\<not> effectTrackDepth s \<le> maxMarkerBits \<Longrightarrow> (\<forall>d. n (depStore s1 d) = n (depStore s d))"
    and a9: "activeEffect s1 = activeEffect s" "shouldTrack s1 = shouldTrack s"
      "trackStack s1 = trackStack s" "effectTrackDepth s1 = effectTrackDepth s"
      "trackOpBit s1 = trackOpBit s" "nextEffect s1 = nextEffect s"
      "computeds s1 = computeds s" "nextComputed s1 = nextComputed s"
      "nextDep s \<le> nextDep s1"
    unfolding tframe_def by blast+
  from b have b1: "\<And>l d. dep_of s1 l = Some d \<Longrightarrow> dep_of s2 l = Some d"
    and b2: "\<And>l d. dep_of s2 l = Some d \<Longrightarrow> dep_of s1 l = Some d \<or> nextDep s1 \<le> d"
    and b3: "\<And>e'. e' \<noteq> e \<Longrightarrow> effects s2 e' = effects s1 e'"
    and b4: "effects s2 e = (effects s1 e)\<lparr>deps := deps (effects s2 e)\<rparr>"
    and b5: "set (deps (effects s1 e)) \<subseteq> set (deps (effects s2 e))"
    and b6: "\<And>d. w (depStore s2 d) = w (depStore s1 d)"
    and b7: "\<And>d m. m AND trackOpBit s1 = 0 \<Longrightarrow> n (depStore s2 d) AND m = n (depStore s1 d) AND m"
    and b8: "\<not> effectTrackDepth s1 \<le> maxMarkerBits \<Longrightarrow> (\<forall>d. n (depStore s2 d) = n (depStore s1 d))"
    and b9: "activeEffect s2 = activeEffect s1" "shouldTrack s2 = shouldTrack s1"
      "trackStack s2 = trackStack s1" "effectTrackDepth s2 = effectTrackDepth s1"
      "trackOpBit s2 = trackOpBit s1" "nextEffect s2 = nextEffect s1"
      "computeds s2 = computeds s1" "nextComputed s2 = nextComputed s1"
      "nextDep s1 \<le> nextDep s2"
    unfolding tframe_def by blast+
  show ?thesis
    unfolding tframe_def
  proof (intro conjI allI impI)
    fix l d assume "dep_of s l = Some d"
    then show "dep_of s2 l = Some d" by (intro b1 a1)
  next
    fix l d assume "dep_of s2 l = Some d"
    from b2 [OF this] show "dep_of s l = Some d \<or> nextDep s \<le> d"
      using a2 [of l d] a9(9) by auto
  next
    fix e' assume "e' \<noteq> e"
    then show "effects s2 e' = effects s e'" by (simp add: a3 b3)
  next
    show "effects s2 e = (effects s e)\<lparr>deps := deps (effects s2 e)\<rparr>"
      by (subst b4, subst a4) simp
    show "set (deps (effects s e)) \<subseteq> set (deps (effects s2 e))"
      using a5 b5 by blast
  next
    fix d show "w (depStore s2 d) = w (depStore s d)" by (simp add: a6 b6)
  next
    fix d m assume m: "m AND trackOpBit s = 0"
    then have "m AND trackOpBit s1 = 0" by (simp add: a9)
    then show "n (depStore s2 d) AND m = n (depStore s d) AND m"
      by (simp add: b7 a7 [OF m])
  next
    fix d assume "\<not> effectTrackDepth s \<le> maxMarkerBits"
    then show "n (depStore s2 d) = n (depStore s d)"
      using a8 b8 by (simp add: a9)
  qed (simp_all add: a9 b9, use a9(9) b9(9) in simp)
qed

lemma dep_of_subscribe [simp]: "dep_of (subscribe d e s) l = dep_of s l"
  by (simp add: dep_of_def subscribe_def)

lemma dep_of_alloc:
  "dep_of s (t, k) = None \<Longrightarrow>
   dep_of (alloc t k s) l = (if l = (t, k) then Some (nextDep s) else dep_of s l)"
  by (cases l) (auto simp: dep_of_def alloc_def map_add_def split: option.splits)

lemma subscribe_ok:
  assumes G: "graph_ok s" and T: "tracking s e"
    and N: "d \<notin> set (deps (effects s e))" and A: "d < nextDep s"
  shows "graph_ok (subscribe d e s)" and "tracking (subscribe d e s) e"
    and "tframe s (subscribe d e s) e"
    and "deps (effects (subscribe d e s) e) = deps (effects s e) @ [d]"
proof -
  let ?s' = "subscribe d e s"
  note mem = graph_okD3 [OF G]
  show dl: "deps (effects ?s' e) = deps (effects s e) @ [d]"
    by (simp add: subscribe_def)
  have nd: "nextDep ?s' = nextDep s" by (simp add: subscribe_def)
  show "graph_ok ?s'"
  proof (rule graph_okI)
    fix l d' assume "dep_of ?s' l = Some d'"
    then show "d' < nextDep ?s'" using graph_okD1 [OF G, of l d'] by (simp add: nd)
  next
    fix l l' d' assume "dep_of ?s' l = Some d'" "dep_of ?s' l' = Some d'"
    then show "l = l'" using graph_okD2 [OF G, of l d' l'] by simp
  next
    fix x y
    show "x \<in> set (members (depStore ?s' y)) \<longleftrightarrow> y \<in> set (deps (effects ?s' x))"
      using mem [of x y] mem [of x d] N by (auto simp: subscribe_def)
  next
    fix y assume "nextDep ?s' \<le> y"
    then show "depStore ?s' y = createDep []"
      using graph_okD4 [OF G, of y] A by (simp add: subscribe_def)
  qed
  show "tracking ?s' e"
  proof (cases "effectTrackDepth s \<le> maxMarkerBits")
    case False
    with T N show ?thesis by (simp add: tracking_def subscribe_def)
  next
    case True
    with T have mk: "\<And>y. n (depStore s y) AND trackOpBit s \<noteq> 0 \<longleftrightarrow> y \<in> set (deps (effects s e))"
      and wk: "\<And>y. w (depStore s y) AND trackOpBit s = 0"
      unfolding tracking_def by blast+
    from T have nz: "trackOpBit s \<noteq> 0" unfolding tracking_def using shl1_nz by metis
    have a: "activeEffect ?s' = Some e" "shouldTrack ?s'"
      "shl1 (effectTrackDepth ?s') = trackOpBit ?s'" "distinct (deps (effects ?s' e))"
      using T N by (simp_all add: tracking_def subscribe_def)
    have b: "n (depStore ?s' y) AND trackOpBit ?s' \<noteq> 0 \<longleftrightarrow> y \<in> set (deps (effects ?s' e))" for y
      using mk [of y] nz True by (auto simp: subscribe_def or_and_self)
    have c: "w (depStore ?s' y) AND trackOpBit ?s' = 0" for y
      using wk [of y] wk [of d] by (auto simp: subscribe_def)
    show ?thesis
      unfolding tracking_def using a b c by blast
  qed
  show "tframe s ?s' e"
    unfolding tframe_def
  proof (intro conjI allI impI)
    fix y b assume "b AND trackOpBit s = 0"
    then show "n (depStore ?s' y) AND b = n (depStore s y) AND b"
      by (simp add: subscribe_def or_and_disjoint)
  next
    fix l d' assume "dep_of s l = Some d'"
    then show "dep_of ?s' l = Some d'" by simp
  next
    fix l d' assume "dep_of ?s' l = Some d'"
    then show "dep_of s l = Some d' \<or> nextDep s \<le> d'" by simp
  qed (auto simp: subscribe_def)
qed

lemma alloc_ok:
  assumes G: "graph_ok s" and T: "tracking s e" and D: "dep_of s (t, k) = None"
  shows "graph_ok (alloc t k s)" and "tracking (alloc t k s) e" and "tframe s (alloc t k s) e"
    and "dep_of (alloc t k s) (t, k) = Some (nextDep s)"
    and "nextDep s \<notin> set (deps (effects (alloc t k s) e))"
    and "nextDep s < nextDep (alloc t k s)"
    and "deps (effects (alloc t k s) e) = deps (effects s e)"
proof -
  let ?s' = "alloc t k s"
  note da = dep_of_alloc [OF D]
  have nd: "nextDep ?s' = Suc (nextDep s)" by (simp add: alloc_def)
  have ds: "depStore ?s' = depStore s" and ef: "effects ?s' = effects s"
    by (simp_all add: alloc_def)
  show "dep_of ?s' (t, k) = Some (nextDep s)" by (simp add: da)
  show "nextDep s < nextDep ?s'" by (simp add: nd)
  show de: "deps (effects ?s' e) = deps (effects s e)" by (simp add: ef)
  show "nextDep s \<notin> set (deps (effects ?s' e))"
    using graph_ok_deps_alloc [OF G, of "nextDep s" e] by (auto simp: de)
  have "activeEffect ?s' = activeEffect s" "shouldTrack ?s' = shouldTrack s"
    "trackOpBit ?s' = trackOpBit s" "effectTrackDepth ?s' = effectTrackDepth s"
    by (simp_all add: alloc_def)
  then show "tracking ?s' e" using T unfolding tracking_def ds ef by simp
  show "tframe s ?s' e"
    unfolding tframe_def
  proof (intro conjI allI impI)
    fix l d assume "dep_of s l = Some d"
    then show "dep_of ?s' l = Some d" using D by (auto simp: da)
  next
    fix l d assume "dep_of ?s' l = Some d"
    then show "dep_of s l = Some d \<or> nextDep s \<le> d" by (simp add: da split: if_splits)
  qed (simp_all add: alloc_def)
  show "graph_ok ?s'"
  proof (rule graph_okI)
    fix l d' assume "dep_of ?s' l = Some d'"
    then have "d' = nextDep s \<or> dep_of s l = Some d'" by (simp add: da split: if_splits)
    then show "d' < nextDep ?s'"
      using graph_okD1 [OF G, of l d'] by (auto simp: nd)
  next
    fix l l' d' assume a: "dep_of ?s' l = Some d'" "dep_of ?s' l' = Some d'"
    show "l = l'"
    proof (cases "l = (t, k)")
      case True
      with a(1) have d': "d' = nextDep s" by (simp add: da)
      show ?thesis
      proof (cases "l' = (t, k)")
        case True
        with \<open>l = (t, k)\<close> show ?thesis by simp
      next
        case False
        with a(2) d' have "dep_of s l' = Some (nextDep s)" by (simp add: da)
        from graph_okD1 [OF G this] show ?thesis by simp
      qed
    next
      case False
      with a(1) have 1: "dep_of s l = Some d'" by (simp add: da)
      show ?thesis
      proof (cases "l' = (t, k)")
        case True
        with a(2) have "d' = nextDep s" by (simp add: da)
        with graph_okD1 [OF G 1] show ?thesis by simp
      next
        case False
        with a(2) have "dep_of s l' = Some d'" by (simp add: da)
        with 1 show ?thesis by (rule graph_okD2 [OF G])
      qed
    qed
  next
    fix x y
    show "x \<in> set (members (depStore ?s' y)) \<longleftrightarrow> y \<in> set (deps (effects ?s' x))"
      using graph_okD3 [OF G, of x y] by (simp add: ds ef)
  next
    fix y assume "nextDep ?s' \<le> y"
    then show "depStore ?s' y = createDep []"
      using graph_okD4 [OF G, of y] by (simp add: ds nd)
  qed
qed

lemma track_eq:
  assumes G: "graph_ok s" and T: "tracking s e"
  shows "track t k s =
     (case dep_of s (t, k) of
        Some d \<Rightarrow> if d \<in> set (deps (effects s e)) then s else subscribe d e s
      | None \<Rightarrow> subscribe (nextDep s) e (alloc t k s))"
proof (cases "dep_of s (t, k)")
  case (Some d)
  have M: "e \<in> set (members (depStore s d)) \<longleftrightarrow> d \<in> set (deps (effects s e))"
    by (rule graph_okD3 [OF G])
  have "track t k s = trackEffects d e s"
    using T depOf_old [OF Some] by (simp add: track_def tracking_def)
  then show ?thesis
    using trackEffects_tracking [OF T M] Some by (simp add: subscribe_def)
next
  case None
  let ?s1 = "alloc t k s"
  note a = alloc_ok [OF G T None]
  have M: "e \<in> set (members (depStore ?s1 (nextDep s))) \<longleftrightarrow> nextDep s \<in> set (deps (effects ?s1 e))"
    by (rule graph_okD3 [OF a(1)])
  have "track t k s = trackEffects (nextDep s) e ?s1"
    using T depOf_new [OF None G] by (simp add: track_def tracking_def alloc_def)
  then show ?thesis
    using trackEffects_tracking [OF a(2) M] a(5) None by (simp add: subscribe_def)
qed

lemma track_step:
  assumes G: "graph_ok s" and T: "tracking s e"
  shows "graph_ok (track t k s) \<and> tracking (track t k s) e \<and> tframe s (track t k s) e
         \<and> (\<exists>d. dep_of (track t k s) (t, k) = Some d
                \<and> set (deps (effects (track t k s) e)) = insert d (set (deps (effects s e))))"
proof (cases "dep_of s (t, k)")
  case (Some d)
  have A: "d < nextDep s" by (rule graph_okD1 [OF G Some])
  show ?thesis
  proof (cases "d \<in> set (deps (effects s e))")
    case True
    with Some G T show ?thesis by (auto simp: track_eq [OF G T])
  next
    case False
    from subscribe_ok [OF G T False A] Some False show ?thesis
      by (simp add: track_eq [OF G T])
  qed
next
  case None
  note a = alloc_ok [OF G T None]
  have N: "nextDep s \<notin> set (deps (effects (alloc t k s) e))" by (rule a(5))
  note b = subscribe_ok [OF a(1) a(2) N a(6)]
  have "tframe s (subscribe (nextDep s) e (alloc t k s)) e"
    by (rule tframe_trans [OF a(3) b(3)])
  with b a(4) a(7) None show ?thesis
    by (simp add: track_eq [OF G T])
qed

section \<open>Tracking the reads of a body\<close>

lemma seq_reads: "seq (exec1 env ex) (reads ls) s = Some (Normal Undefined, track_all ls s)"
  by (induction ls arbitrary: s) (simp_all add: reads_def track_all_def)

lemma exec_reads: "exec env (Suc f) (reads ls) s = Some (Normal Undefined, track_all ls s)"
  by (simp add: seq_reads)

lemma tframeD_dep: "tframe s s' e \<Longrightarrow> dep_of s l = Some d \<Longrightarrow> dep_of s' l = Some d"
  unfolding tframe_def by blast

lemma tframeD_deps: "tframe s s' e \<Longrightarrow> set (deps (effects s e)) \<subseteq> set (deps (effects s' e))"
  unfolding tframe_def by blast

lemma track_all_ok:
  assumes "graph_ok s" and "tracking s e"
  shows "graph_ok (track_all ls s) \<and> tracking (track_all ls s) e \<and> tframe s (track_all ls s) e
     \<and> (\<forall>l\<in>set ls. \<exists>d. dep_of (track_all ls s) l = Some d
                          \<and> d \<in> set (deps (effects (track_all ls s) e)))
     \<and> (\<forall>d\<in>set (deps (effects (track_all ls s) e)).
            d \<in> set (deps (effects s e)) \<or> (\<exists>l\<in>set ls. dep_of (track_all ls s) l = Some d))"
  using assms
proof (induction ls arbitrary: s)
  case Nil
  then show ?case by (simp add: track_all_def)
next
  case (Cons l ls)
  obtain t k where l: "l = (t, k)" by (cases l)
  let ?s1 = "track t k s"
  let ?s' = "track_all ls ?s1"
  have ta: "track_all (l # ls) s = ?s'" by (simp add: track_all_def l)
  from track_step [OF Cons.prems, of t k] obtain d0 where
    g1: "graph_ok ?s1" and t1: "tracking ?s1 e" and f1: "tframe s ?s1 e"
    and d0: "dep_of ?s1 (t, k) = Some d0"
    and s0: "set (deps (effects ?s1 e)) = insert d0 (set (deps (effects s e)))"
    by blast
  from Cons.IH [OF g1 t1] have g2: "graph_ok ?s'" and t2: "tracking ?s' e"
    and f2: "tframe ?s1 ?s' e"
    and in2: "\<forall>l\<in>set ls. \<exists>d. dep_of ?s' l = Some d \<and> d \<in> set (deps (effects ?s' e))"
    and out2: "\<forall>d\<in>set (deps (effects ?s' e)).
            d \<in> set (deps (effects ?s1 e)) \<or> (\<exists>l\<in>set ls. dep_of ?s' l = Some d)"
    by blast+
  have d0': "dep_of ?s' (t, k) = Some d0" by (rule tframeD_dep [OF f2 d0])
  have d0in: "d0 \<in> set (deps (effects ?s' e))"
    using tframeD_deps [OF f2] s0 by blast
  have "\<forall>l'\<in>set (l # ls). \<exists>d. dep_of ?s' l' = Some d \<and> d \<in> set (deps (effects ?s' e))"
    using in2 d0' d0in by (auto simp: l)
  moreover have "\<forall>d\<in>set (deps (effects ?s' e)).
            d \<in> set (deps (effects s e)) \<or> (\<exists>l'\<in>set (l # ls). dep_of ?s' l' = Some d)"
  proof
    fix d assume "d \<in> set (deps (effects ?s' e))"
    with out2 have "d \<in> set (deps (effects ?s1 e)) \<or> (\<exists>l\<in>set ls. dep_of ?s' l = Some d)"
      by blast
    then show "d \<in> set (deps (effects s e)) \<or> (\<exists>l'\<in>set (l # ls). dep_of ?s' l' = Some d)"
      using s0 d0' by (auto simp: l)
  qed
  moreover have "tframe s ?s' e" by (rule tframe_trans [OF f1 f2])
  ultimately show ?case using g2 t2 unfolding ta by blast
qed

lemma fold_finalizeDep_clear:
  assumes "\<forall>d. w (depStore s d) AND trackOpBit s = 0"
  shows "fold (finalizeDep e) ds (s, kept) =
     (s\<lparr>depStore := (\<lambda>d. if d \<in> set ds
                          then (depStore s d)\<lparr>n := n (depStore s d) AND NOT (trackOpBit s)\<rparr>
                          else depStore s d)\<rparr>,
      kept @ ds)"
  using assms
proof (induction ds arbitrary: s kept)
  case Nil
  show ?case by simp
next
  case (Cons d ds)
  let ?m = "trackOpBit s"
  let ?s1 = "s\<lparr>depStore := (depStore s)(d := (depStore s d)\<lparr>n := n (depStore s d) AND NOT ?m\<rparr>)\<rparr>"
  have wd: "w (depStore s d) AND ?m = 0" using Cons.prems by simp
  have step: "finalizeDep e d (s, kept) = (?s1, kept @ [d])"
    using wd by (simp add: finalizeDep_def Let_def wasTracked_def andnot_id)
  have w1: "\<forall>x. w (depStore ?s1 x) AND trackOpBit ?s1 = 0"
    using Cons.prems by simp
  have "fold (finalizeDep e) (d # ds) (s, kept) = fold (finalizeDep e) ds (?s1, kept @ [d])"
    by (simp add: step)
  also have "\<dots> = (?s1\<lparr>depStore := (\<lambda>x. if x \<in> set ds
                          then (depStore ?s1 x)\<lparr>n := n (depStore ?s1 x) AND NOT (trackOpBit ?s1)\<rparr>
                          else depStore ?s1 x)\<rparr>, (kept @ [d]) @ ds)"
    by (rule Cons.IH [OF w1])
  also have "\<dots> = (s\<lparr>depStore := (\<lambda>x. if x \<in> set (d # ds)
                          then (depStore s x)\<lparr>n := n (depStore s x) AND NOT ?m\<rparr>
                          else depStore s x)\<rparr>, kept @ d # ds)"
    by (auto simp: fun_eq_iff)
  finally show ?case .
qed

lemma finalizeDepMarkers_clear:
  assumes "\<forall>d. w (depStore s d) AND trackOpBit s = 0"
  shows "finalizeDepMarkers e s =
     s\<lparr>depStore := (\<lambda>d. if d \<in> set (deps (effects s e))
                          then (depStore s d)\<lparr>n := n (depStore s d) AND NOT (trackOpBit s)\<rparr>
                          else depStore s d)\<rparr>"
  by (simp add: finalizeDepMarkers_def fold_finalizeDep_clear [OF assms])

lemma dep_of_cong: "targetMap s' = targetMap s \<Longrightarrow> dep_of s' l = dep_of s l"
  by (simp add: dep_of_def)

lemma subscribed_iff:
  "subscribed s e l \<longleftrightarrow> (\<exists>d. dep_of s l = Some d \<and> e \<in> set (members (depStore s d)))"
  by (simp add: subscribed_def split: option.splits)

lemma run_enter_graph:
  assumes G: "graph_ok s" and MC: "markers_clear s (effectTrackDepth s + 1)"
  shows "graph_ok (enter_fn e (run_enter e s))" and "tracking (enter_fn e (run_enter e s)) e"
proof -
  let ?s1 = "enter_fn e (run_enter e s)"
  have dp: "\<And>l. dep_of ?s1 l = dep_of s l"
    by (rule dep_of_cong) (simp add: run_enter_facts)
  have mem1: "set (members (depStore ?s1 d)) = set (members (depStore s d)) - {e}" for d
    using graph_okD3 [OF G, of e d] by (auto simp: run_enter_eq set_delete_def)
  have deps1: "deps (effects ?s1 x) = (if x = e then [] else deps (effects s x))" for x
    by (simp add: run_enter_eq)
  show "graph_ok ?s1"
  proof (rule graph_okI)
    fix l d assume "dep_of ?s1 l = Some d"
    then show "d < nextDep ?s1" using graph_okD1 [OF G, of l d] by (simp add: dp run_enter_facts)
  next
    fix l l' d assume "dep_of ?s1 l = Some d" "dep_of ?s1 l' = Some d"
    then show "l = l'" using graph_okD2 [OF G, of l d l'] by (simp add: dp)
  next
    fix x d
    show "x \<in> set (members (depStore ?s1 d)) \<longleftrightarrow> d \<in> set (deps (effects ?s1 x))"
      using graph_okD3 [OF G, of x d] by (auto simp: mem1 deps1)
  next
    fix d assume "nextDep ?s1 \<le> d"
    then have a: "nextDep s \<le> d" by (simp add: run_enter_facts)
    then have "d \<notin> set (deps (effects s e))"
      using graph_ok_deps_alloc [OF G, of d e] by auto
    then show "depStore ?s1 d = createDep []"
      using graph_okD4 [OF G a] by (simp add: run_enter_eq)
  qed
  have nw: "n (depStore ?s1 d) = n (depStore s d)" "w (depStore ?s1 d) = w (depStore s d)" for d
    by (simp_all add: run_enter_eq)
  show "tracking ?s1 e"
    unfolding tracking_def
    using MC by (simp add: run_enter_facts markers_clear_def nw)
qed

lemma run_exit_tracking:
  assumes g2: "graph_ok s2" and t2: "tracking s2 e"
    and d2: "effectTrackDepth s2 = D + 1"
  shows "graph_ok (run_exit e b s2)"
    and "markers_clear (run_exit e b s2) (D + 1)"
    and "effects (run_exit e b s2) = (effects s2)(e := (effects s2 e)\<lparr>parent := None\<rparr>)"
    and "\<And>d. members (depStore (run_exit e b s2) d) = members (depStore s2 d)"
    and "\<And>l. dep_of (run_exit e b s2) l = dep_of s2 l"
    and "\<And>d. w (depStore (run_exit e b s2) d) = w (depStore s2 d)"
    and "\<And>d m. m AND shl1 (D + 1) = 0 \<Longrightarrow> n (depStore (run_exit e b s2) d) AND m = n (depStore s2 d) AND m"
    and "activeEffect (run_exit e b s2) = parent (effects s2 e)"
    and "shouldTrack (run_exit e b s2) = b"
    and "effectTrackDepth (run_exit e b s2) = D"
    and "trackOpBit (run_exit e b s2) = shl1 D"
    and "trackStack (run_exit e b s2) = trackStack s2"
    and "nextEffect (run_exit e b s2) = nextEffect s2"
    and "computeds (run_exit e b s2) = computeds s2"
    and "nextComputed (run_exit e b s2) = nextComputed s2"
    and "nextDep (run_exit e b s2) = nextDep s2"
proof -
  let ?m = "shl1 (D + 1)"
  let ?s3 = "run_exit e b s2"
  have b2: "trackOpBit s2 = ?m" using t2 d2 by (simp add: tracking_def)
  define s2' where "s2' = (if D + 1 \<le> maxMarkerBits then finalizeDepMarkers e s2 else s2)"
  have w2: "D + 1 \<le> maxMarkerBits \<Longrightarrow> \<forall>d. w (depStore s2 d) AND trackOpBit s2 = 0"
    using t2 d2 unfolding tracking_def by simp
  have s2'_eq: "s2' = s2\<lparr>depStore := (\<lambda>d. if D + 1 \<le> maxMarkerBits \<and> d \<in> set (deps (effects s2 e))
                          then (depStore s2 d)\<lparr>n := n (depStore s2 d) AND NOT ?m\<rparr>
                          else depStore s2 d)\<rparr>"
  proof (cases "D + 1 \<le> maxMarkerBits")
    case True
    then show ?thesis
      by (simp add: s2'_def finalizeDepMarkers_clear [OF w2 [OF True]] b2 cong: if_cong)
  next
    case False
    then show ?thesis by (simp add: s2'_def)
  qed
  have s3_eq: "?s3 = upd_effect e (\<lambda>x. x\<lparr>parent := None\<rparr>)
           (s2'\<lparr>effectTrackDepth := D, trackOpBit := shl1 D,
               activeEffect := parent (effects s2 e), shouldTrack := b\<rparr>)"
  proof -
    have "effectTrackDepth s2' = D + 1" by (simp add: s2'_eq d2)
    moreover have "parent (effects s2' e) = parent (effects s2 e)" by (simp add: s2'_eq)
    ultimately show ?thesis
      by (simp add: run_exit_def Let_def d2 s2'_def)
  qed
  show ef3: "effects ?s3 = (effects s2)(e := (effects s2 e)\<lparr>parent := None\<rparr>)"
    by (simp add: s3_eq upd_effect_def s2'_eq)
  have deps3: "deps (effects ?s3 x) = deps (effects s2 x)" for x
    by (simp add: ef3)
  show mem3: "members (depStore ?s3 d) = members (depStore s2 d)" for d
    by (simp add: s3_eq upd_effect_def s2'_eq)
  have tm3: "targetMap ?s3 = targetMap s2"
    by (simp_all add: s3_eq upd_effect_def s2'_eq)
  show nd3: "nextDep ?s3 = nextDep s2"
    by (simp_all add: s3_eq upd_effect_def s2'_eq)
  show dp3: "\<And>l. dep_of ?s3 l = dep_of s2 l" by (rule dep_of_cong [OF tm3])
  show "graph_ok ?s3"
  proof (rule graph_okI)
    fix l d assume "dep_of ?s3 l = Some d"
    then show "d < nextDep ?s3" using graph_okD1 [OF g2, of l d] by (simp add: dp3 nd3)
  next
    fix l l' d assume "dep_of ?s3 l = Some d" "dep_of ?s3 l' = Some d"
    then show "l = l'" using graph_okD2 [OF g2, of l d l'] by (simp add: dp3)
  next
    fix x d
    show "x \<in> set (members (depStore ?s3 d)) \<longleftrightarrow> d \<in> set (deps (effects ?s3 x))"
      using graph_okD3 [OF g2, of x d] by (simp add: mem3 deps3)
  next
    fix d assume "nextDep ?s3 \<le> d"
    then have a: "nextDep s2 \<le> d" by (simp add: nd3)
    then have "d \<notin> set (deps (effects s2 e))"
      using graph_ok_deps_alloc [OF g2, of d e] by auto
    then show "depStore ?s3 d = createDep []"
      using graph_okD4 [OF g2 a] by (simp add: s3_eq upd_effect_def s2'_eq)
  qed
  show w3: "w (depStore ?s3 d) = w (depStore s2 d)" for d
    by (simp add: s3_eq upd_effect_def s2'_eq)
  show "n (depStore ?s3 d) AND m = n (depStore s2 d) AND m" if "m AND ?m = 0" for d m
    using that by (simp add: s3_eq upd_effect_def s2'_eq andnot_and_disjoint)
  show "markers_clear ?s3 (D + 1)"
    unfolding markers_clear_def
  proof (intro impI allI conjI)
    fix d assume le: "D + 1 \<le> maxMarkerBits"
    show "w (depStore ?s3 d) AND ?m = 0"
      using w2 [OF le] by (simp add: w3 b2)
    have mk: "n (depStore s2 d) AND ?m \<noteq> 0 \<longleftrightarrow> d \<in> set (deps (effects s2 e))"
      using t2 le unfolding tracking_def d2 b2 by blast
    show "n (depStore ?s3 d) AND ?m = 0"
      using mk le by (auto simp: s3_eq upd_effect_def s2'_eq andnot_and_self)
  qed
  show "activeEffect ?s3 = parent (effects s2 e)" "shouldTrack ?s3 = b"
    "effectTrackDepth ?s3 = D" "trackOpBit ?s3 = shl1 D"
    "trackStack ?s3 = trackStack s2" "nextEffect ?s3 = nextEffect s2"
    "computeds ?s3 = computeds s2" "nextComputed ?s3 = nextComputed s2"
    by (simp_all add: s3_eq upd_effect_def s2'_eq)
qed

lemma run_tracks:
  assumes G: "graph_ok s" and A: "active (effects s e)" and DS: "\<not> deferStop (effects s e)"
    and C: "chain_has (parents s) (activeEffect s) e = Some False"
    and MC: "markers_clear s (effectTrackDepth s + 1)"
    and B: "exec env (Suc f) (fn (effects s e)) (enter_fn e (run_enter e s))
              = Some (Normal Undefined, track_all ls (enter_fn e (run_enter e s)))"
  shows "\<exists>s'. run env (Suc f) e s = Some (Normal (fn_value e s), s')
     \<and> graph_ok s' \<and> markers_clear s' (effectTrackDepth s + 1)
     \<and> (\<forall>l d. dep_of s l = Some d \<longrightarrow> dep_of s' l = Some d)
     \<and> (\<forall>l. subscribed s' e l \<longleftrightarrow> l \<in> set ls)
     \<and> distinct (deps (effects s' e))
     \<and> set (deps (effects s' e)) = {d. \<exists>l\<in>set ls. dep_of s' l = Some d}
     \<and> (\<forall>e'. e' \<noteq> e \<longrightarrow> effects s' e' = effects s e')
     \<and> effects s' e = (effects s e)\<lparr>deps := deps (effects s' e), parent := None,
                                      fn_calls := Suc (fn_calls (effects s e))\<rparr>
     \<and> activeEffect s' = activeEffect s \<and> shouldTrack s' = shouldTrack s
     \<and> trackStack s' = trackStack s \<and> effectTrackDepth s' = effectTrackDepth s
     \<and> trackOpBit s' = shl1 (effectTrackDepth s)
     \<and> nextEffect s' = nextEffect s \<and> computeds s' = computeds s
     \<and> nextComputed s' = nextComputed s \<and> nextDep s \<le> nextDep s'
     \<and> (\<forall>d. w (depStore s' d) = w (depStore s d))
     \<and> (\<forall>d b. b AND shl1 (effectTrackDepth s + 1) = 0
            \<longrightarrow> n (depStore s' d) AND b = n (depStore s d) AND b)"
proof -
  let ?D = "effectTrackDepth s"
  let ?m = "shl1 (?D + 1)"
  let ?s1 = "enter_fn e (run_enter e s)"
  let ?s2 = "track_all ls ?s1"
  let ?s3 = "run_exit e (shouldTrack s) ?s2"
  note g1 = run_enter_graph(1) [OF G MC, of e]
  note t1 = run_enter_graph(2) [OF G MC, of e]
  from track_all_ok [OF g1 t1, of ls] have g2: "graph_ok ?s2" and t2: "tracking ?s2 e"
    and f2: "tframe ?s1 ?s2 e"
    and in2: "\<forall>l\<in>set ls. \<exists>d. dep_of ?s2 l = Some d \<and> d \<in> set (deps (effects ?s2 e))"
    and out2: "\<forall>d\<in>set (deps (effects ?s2 e)).
            d \<in> set (deps (effects ?s1 e)) \<or> (\<exists>l\<in>set ls. dep_of ?s2 l = Some d)"
    by blast+
  have d2: "effectTrackDepth ?s2 = ?D + 1"
    using f2 by (simp_all add: tframe_def run_enter_facts)
  have e2: "effects ?s2 e = (effects ?s1 e)\<lparr>deps := deps (effects ?s2 e)\<rparr>"
    and o2: "\<And>x. x \<noteq> e \<Longrightarrow> effects ?s2 x = effects ?s1 x"
    using f2 unfolding tframe_def by blast+
  have e1: "effects ?s1 e = (effects s e)\<lparr>parent := activeEffect s, deps := [],
                                fn_calls := Suc (fn_calls (effects s e))\<rparr>"
    and o1: "\<And>x. x \<noteq> e \<Longrightarrow> effects ?s1 x = effects s x"
    by (simp_all add: run_enter_eq)
  note x = run_exit_tracking [OF g2 t2 d2, where b = "shouldTrack s"]
  have pe: "parent (effects ?s2 e) = activeEffect s" by (subst e2, simp add: e1)
  have deps3: "deps (effects ?s3 y) = deps (effects ?s2 y)" for y
    by (simp add: x(3))
  have dp1: "\<And>l. dep_of ?s1 l = dep_of s l"
    by (rule dep_of_cong) (simp add: run_enter_facts)
  have mono: "dep_of ?s3 l = Some d" if "dep_of s l = Some d" for l d
    using tframeD_dep [OF f2, of l d] that by (simp add: x(5) dp1)
  have deps1: "deps (effects ?s1 e) = []" by (simp add: e1)
  have set3: "set (deps (effects ?s3 e)) = {d. \<exists>l\<in>set ls. dep_of ?s3 l = Some d}"
    using in2 out2 by (auto simp: deps3 x(5) deps1)
  have sub3: "subscribed ?s3 e l \<longleftrightarrow> l \<in> set ls" for l
  proof
    assume "subscribed ?s3 e l"
    then obtain d where d: "dep_of ?s3 l = Some d" and "e \<in> set (members (depStore ?s3 d))"
      by (auto simp: subscribed_iff)
    then have "d \<in> set (deps (effects ?s3 e))" by (simp add: graph_okD3 [OF x(1)])
    with set3 obtain l' where "l' \<in> set ls" "dep_of ?s3 l' = Some d" by auto
    with d graph_okD2 [OF x(1), of l d l'] show "l \<in> set ls" by simp
  next
    assume "l \<in> set ls"
    with in2 obtain d where "dep_of ?s3 l = Some d" "d \<in> set (deps (effects ?s3 e))"
      by (auto simp: x(5) deps3)
    then show "subscribed ?s3 e l" by (auto simp: subscribed_iff graph_okD3 [OF x(1)])
  qed
  have n2: "\<And>d b. b AND ?m = 0 \<Longrightarrow> n (depStore ?s2 d) AND b = n (depStore ?s1 d) AND b"
    and w2': "\<And>d. w (depStore ?s2 d) = w (depStore ?s1 d)"
    using f2 unfolding tframe_def by (simp_all add: run_enter_facts)
  have nw1: "n (depStore ?s1 d) = n (depStore s d)" "w (depStore ?s1 d) = w (depStore s d)" for d
    by (simp_all add: run_enter_eq)
  have w3: "w (depStore ?s3 d) = w (depStore s d)" for d
    by (simp add: x(6) w2' nw1)
  have n3: "n (depStore ?s3 d) AND b = n (depStore s d) AND b" if "b AND ?m = 0" for d b
    using n2 [OF that, of d] x(7) [OF that, of d] by (simp add: nw1)
  have run: "run env (Suc f) e s = Some (Normal (fn_value e s), ?s3)"
  proof -
    have "deferStop (effects ?s3 e) = deferStop (effects s e)"
      by (simp add: x(3), subst e2, simp add: e1)
    then show ?thesis
      using A C DS by (simp add: run_def run_with_def B returning_def Let_def del: exec.simps)
  qed
  have e3: "effects ?s3 e = (effects s e)\<lparr>deps := deps (effects ?s3 e), parent := None,
                                      fn_calls := Suc (fn_calls (effects s e))\<rparr>"
    by (simp add: x(3), subst e2, simp add: e1)
  have o3: "effects ?s3 y = effects s y" if "y \<noteq> e" for y
    using that by (simp add: x(3) o2 o1)
  have misc: "activeEffect ?s3 = activeEffect s" "shouldTrack ?s3 = shouldTrack s"
    "effectTrackDepth ?s3 = effectTrackDepth s" "trackOpBit ?s3 = shl1 (effectTrackDepth s)"
    by (simp_all add: x pe)
  have misc2: "trackStack ?s3 = trackStack s" "nextEffect ?s3 = nextEffect s"
    "computeds ?s3 = computeds s" "nextComputed ?s3 = nextComputed s" "nextDep s \<le> nextDep ?s3"
    using f2 unfolding tframe_def by (simp_all add: x run_enter_facts)
  have dist: "distinct (deps (effects ?s3 e))"
    using t2 by (simp add: deps3 tracking_def)
  show ?thesis
    using run x(1) x(2) mono sub3 dist set3 o3 e3 misc misc2 w3 n3 by blast
qed

lemma run_reads:
  assumes G: "graph_ok s" and A: "active (effects s e)" and DS: "\<not> deferStop (effects s e)"
    and C: "chain_has (parents s) (activeEffect s) e = Some False"
    and MC: "markers_clear s (effectTrackDepth s + 1)"
    and B: "fn (effects s e) = reads ls"
  shows "\<exists>s'. run env (Suc f) e s = Some (Normal (fn_value e s), s')
     \<and> graph_ok s' \<and> markers_clear s' (effectTrackDepth s + 1)
     \<and> (\<forall>l d. dep_of s l = Some d \<longrightarrow> dep_of s' l = Some d)
     \<and> (\<forall>l. subscribed s' e l \<longleftrightarrow> l \<in> set ls)
     \<and> distinct (deps (effects s' e))
     \<and> set (deps (effects s' e)) = {d. \<exists>l\<in>set ls. dep_of s' l = Some d}
     \<and> (\<forall>e'. e' \<noteq> e \<longrightarrow> effects s' e' = effects s e')
     \<and> effects s' e = (effects s e)\<lparr>deps := deps (effects s' e), parent := None,
                                      fn_calls := Suc (fn_calls (effects s e))\<rparr>
     \<and> activeEffect s' = activeEffect s \<and> shouldTrack s' = shouldTrack s
     \<and> trackStack s' = trackStack s \<and> effectTrackDepth s' = effectTrackDepth s
     \<and> trackOpBit s' = shl1 (effectTrackDepth s)
     \<and> nextEffect s' = nextEffect s \<and> computeds s' = computeds s
     \<and> nextComputed s' = nextComputed s \<and> nextDep s \<le> nextDep s'
     \<and> (\<forall>d. w (depStore s' d) = w (depStore s d))
     \<and> (\<forall>d b. b AND shl1 (effectTrackDepth s + 1) = 0
            \<longrightarrow> n (depStore s' d) AND b = n (depStore s d) AND b)"
proof (rule run_tracks [OF G A DS C MC])
  show "exec env (Suc f) (fn (effects s e)) (enter_fn e (run_enter e s))
              = Some (Normal Undefined, track_all ls (enter_fn e (run_enter e s)))"
    by (simp add: B seq_reads)
qed

lemma track_all_idle:
  "activeEffect s = None \<or> \<not> shouldTrack s \<Longrightarrow> track_all ls s = s"
proof (induction ls)
  case Nil
  show ?case by (simp add: track_all_def)
next
  case (Cons l ls)
  have "track (fst l) (snd l) s = s"
    using Cons.prems by (auto simp: track_def split: option.splits)
  with Cons show ?case by (simp add: track_all_def)
qed

lemma track_all_subscribed:
  assumes G: "graph_ok s" and T: "tracking s a"
  shows "subscribed (track_all ls s) a l \<longleftrightarrow> subscribed s a l \<or> l \<in> set ls"
    and "x \<noteq> a \<Longrightarrow> subscribed (track_all ls s) x l \<longleftrightarrow> subscribed s x l"
proof -
  let ?s' = "track_all ls s"
  from track_all_ok [OF G T, of ls] have g': "graph_ok ?s'" and f: "tframe s ?s' a"
    and ins: "\<forall>l\<in>set ls. \<exists>d. dep_of ?s' l = Some d \<and> d \<in> set (deps (effects ?s' a))"
    and outs: "\<forall>d\<in>set (deps (effects ?s' a)).
            d \<in> set (deps (effects s a)) \<or> (\<exists>l\<in>set ls. dep_of ?s' l = Some d)"
    by blast+
  from f have mono: "\<And>l d. dep_of s l = Some d \<Longrightarrow> dep_of ?s' l = Some d"
    and older: "\<And>l d. dep_of ?s' l = Some d \<Longrightarrow> dep_of s l = Some d \<or> nextDep s \<le> d"
    and oth: "\<And>y. y \<noteq> a \<Longrightarrow> effects ?s' y = effects s y"
    and grow: "set (deps (effects s a)) \<subseteq> set (deps (effects ?s' a))"
    unfolding tframe_def by blast+
  have old: "dep_of s l = Some d" if "dep_of ?s' l = Some d" "d \<in> set (deps (effects s y))" for d y
    using older [OF that(1)] graph_ok_deps_alloc [OF G that(2)] by auto
  show "subscribed ?s' a l \<longleftrightarrow> subscribed s a l \<or> l \<in> set ls"
  proof
    assume "subscribed ?s' a l"
    then obtain d where d: "dep_of ?s' l = Some d" and "a \<in> set (members (depStore ?s' d))"
      by (auto simp: subscribed_iff)
    then have "d \<in> set (deps (effects ?s' a))" by (simp add: graph_okD3 [OF g'])
    with outs have "d \<in> set (deps (effects s a)) \<or> (\<exists>l'\<in>set ls. dep_of ?s' l' = Some d)" by blast
    then show "subscribed s a l \<or> l \<in> set ls"
    proof
      assume m: "d \<in> set (deps (effects s a))"
      from old [OF d m] m show ?thesis by (auto simp: subscribed_iff graph_okD3 [OF G])
    next
      assume "\<exists>l'\<in>set ls. dep_of ?s' l' = Some d"
      then obtain l' where "l' \<in> set ls" "dep_of ?s' l' = Some d" by blast
      with d graph_okD2 [OF g', of l d l'] show ?thesis by simp
    qed
  next
    assume "subscribed s a l \<or> l \<in> set ls"
    then show "subscribed ?s' a l"
    proof
      assume "subscribed s a l"
      then obtain d where "dep_of s l = Some d" "d \<in> set (deps (effects s a))"
        by (auto simp: subscribed_iff graph_okD3 [OF G])
      with mono grow show ?thesis by (auto simp: subscribed_iff graph_okD3 [OF g'])
    next
      assume "l \<in> set ls"
      with ins show ?thesis by (auto simp: subscribed_iff graph_okD3 [OF g'])
    qed
  qed
  show "subscribed ?s' x l \<longleftrightarrow> subscribed s x l" if "x \<noteq> a"
  proof
    assume "subscribed ?s' x l"
    then obtain d where d: "dep_of ?s' l = Some d" and "d \<in> set (deps (effects ?s' x))"
      by (auto simp: subscribed_iff graph_okD3 [OF g'])
    then have m: "d \<in> set (deps (effects s x))" by (simp add: oth [OF that])
    from old [OF d m] m show "subscribed s x l" by (auto simp: subscribed_iff graph_okD3 [OF G])
  next
    assume "subscribed s x l"
    then obtain d where "dep_of s l = Some d" "d \<in> set (deps (effects s x))"
      by (auto simp: subscribed_iff graph_okD3 [OF G])
    then show "subscribed ?s' x l"
      using mono [of l d] by (auto simp: subscribed_iff graph_okD3 [OF g'] oth [OF that])
  qed
qed

lemma seq_app:
  "seq g (xs @ ys) s =
     (case seq g xs s of
        None \<Rightarrow> None
      | Some (Thrown, s') \<Rightarrow> Some (Thrown, s')
      | Some (Normal v, s') \<Rightarrow> seq g ys s')"
  by (induction xs arbitrary: s) (auto split: option.splits completion.splits)

lemma track_all_append: "track_all (xs @ ys) s = track_all ys (track_all xs s)"
  by (simp add: track_all_def)

lemma shouldTrack_track_all: "shouldTrack (track_all ls s) = shouldTrack s"
proof (induction ls arbitrary: s)
  case Nil
  show ?case by (simp add: track_all_def)
next
  case (Cons l ls)
  have "shouldTrack (track (fst l) (snd l) s) = shouldTrack s"
    by (simp add: track_def depOf_def trackEffects_def Let_def split: option.splits)
  with Cons [of "track (fst l) (snd l) s"] show ?case by (simp add: track_all_def)
qed

lemma paused_reads:
  assumes "shouldTrack s"
  shows "seq (exec1 env ex) ([PauseTracking] @ reads ls @ [ResetTracking]) s
           = Some (Normal Undefined, s)"
proof -
  have idle: "track_all ls (pauseTracking s) = pauseTracking s"
    by (rule track_all_idle) (simp add: pauseTracking_def)
  have undo: "resetTracking (pauseTracking s) = s"
    by (simp add: resetTracking_def pauseTracking_def)
  show ?thesis
    by (simp add: seq_app seq_reads idle undo)
qed

lemma seq_body_of:
  "shouldTrack s \<Longrightarrow>
   seq (exec1 env ex) (body_of segs) s = Some (Normal Undefined, track_all (tracked_reads segs) s)"
proof (induction segs arbitrary: s)
  case Nil
  show ?case by (simp add: tracked_reads_def track_all_def)
next
  case (Cons seg segs)
  show ?case
  proof (cases "fst seg")
    case True
    have st: "shouldTrack (track_all (snd seg) s)"
      using Cons.prems by (simp add: shouldTrack_track_all)
    have tr: "tracked_reads (seg # segs) = snd seg @ tracked_reads segs"
      using True by (simp add: tracked_reads_def)
    show ?thesis
      using True Cons.IH [OF st]
      by (simp add: seq_app seq_reads tr track_all_append)
  next
    case False
    have tr: "tracked_reads (seg # segs) = tracked_reads segs"
      using False by (simp add: tracked_reads_def)
    have "seq (exec1 env ex) (body_of (seg # segs)) s
            = (case seq (exec1 env ex) ([PauseTracking] @ reads (snd seg) @ [ResetTracking]) s of
                 None \<Rightarrow> None
               | Some (Thrown, s') \<Rightarrow> Some (Thrown, s')
               | Some (Normal v, s') \<Rightarrow> seq (exec1 env ex) (body_of segs) s')"
      using False by (simp only: body_of.simps if_False seq_app)
    then show ?thesis
      using Cons.IH [OF Cons.prems]
      by (simp only: paused_reads [OF Cons.prems] tr option.case prod.case completion.case)
  qed
qed

lemma body_of_reads: "body_of [(True, ls)] = reads ls"
  by simp

lemma tracked_reads_single: "tracked_reads [(True, ls)] = ls"
  by (simp add: tracked_reads_def)

lemma graph_ok_cong:
  assumes "targetMap s' = targetMap s" and "nextDep s' = nextDep s" and "depStore s' = depStore s"
    and "\<And>x. deps (effects s' x) = deps (effects s x)"
  shows "graph_ok s' = graph_ok s"
  by (simp add: graph_ok_def dep_of_def assms)

lemma graph_ok_new_user_effect:
  assumes G: "graph_ok s" and F: "\<forall>d. nextEffect s \<notin> set (members (depStore s d))"
  shows "graph_ok (new_user_effect body res sch rc hook s)"
proof -
  let ?s1 = "upd_effect (nextEffect s) (\<lambda>x. x\<lparr>deps := []\<rparr>) s"
  have "deps (effects s (nextEffect s)) = []"
    using F graph_okD3 [OF G, of "nextEffect s"] by (cases "deps (effects s (nextEffect s))") auto
  then have "\<And>x. deps (effects (new_user_effect body res sch rc hook s) x) = deps (effects s x)"
    by (simp add: new_user_effect_def new_effect_def)
  then have "graph_ok (new_user_effect body res sch rc hook s) = graph_ok s"
    by (intro graph_ok_cong) (simp_all add: new_user_effect_def)
  with G show ?thesis by simp
qed

lemma tracking_cong:
  assumes "activeEffect s' = activeEffect s" and "shouldTrack s' = shouldTrack s"
    and "trackOpBit s' = trackOpBit s" and "effectTrackDepth s' = effectTrackDepth s"
    and "depStore s' = depStore s" and "deps (effects s' e) = deps (effects s e)"
  shows "tracking s' e = tracking s e"
  by (simp add: tracking_def assms)

lemma subscribed_cong:
  "targetMap s' = targetMap s \<Longrightarrow> depStore s' = depStore s \<Longrightarrow> subscribed s' e l = subscribed s e l"
  by (simp add: subscribed_def dep_of_def cong: option.case_cong)

lemma track_other:
  assumes "activeEffect s \<noteq> Some x"
  shows "effects (track t k s) x = effects s x"
proof (cases "activeEffect s")
  case None
  then show ?thesis by (simp add: track_def)
next
  case (Some a)
  with assms have ne: "a \<noteq> x" by simp
  have "effects (snd (depOf t k s)) = effects s"
    by (simp add: depOf_def Let_def split: option.splits)
  then show ?thesis
    using Some ne by (simp add: track_def trackEffects_def Let_def)
qed

lemma track_all_other_conj:
  "activeEffect s \<noteq> Some x \<Longrightarrow>
   effects (track_all ls s) x = effects s x
   \<and> activeEffect (track_all ls s) = activeEffect s
   \<and> set (members (depStore (track_all ls s) d))
         \<subseteq> set (members (depStore s d)) \<union> set_option (activeEffect s)"
proof (induction ls arbitrary: s)
  case Nil
  show ?case by (simp add: track_all_def)
next
  case (Cons l ls)
  let ?s1 = "track (fst l) (snd l) s"
  have ta: "track_all (l # ls) s = track_all ls ?s1" by (simp add: track_all_def)
  have sh: "shell_eq s ?s1" by (rule track_shell)
  then have a1: "activeEffect ?s1 = activeEffect s" by (simp add: shell_eq_def)
  have n1: "activeEffect ?s1 \<noteq> Some x" using Cons.prems by (simp add: a1)
  have m1: "set (members (depStore ?s1 d)) \<subseteq> set (members (depStore s d)) \<union> set_option (activeEffect s)"
    using sh by (simp add: shell_eq_def)
  from Cons.IH [OF n1] have i1: "effects (track_all ls ?s1) x = effects ?s1 x"
    and i2: "activeEffect (track_all ls ?s1) = activeEffect ?s1"
    and i3: "set (members (depStore (track_all ls ?s1) d))
         \<subseteq> set (members (depStore ?s1 d)) \<union> set_option (activeEffect ?s1)"
    by blast+
  have "effects (track_all ls ?s1) x = effects s x"
    using i1 track_other [OF Cons.prems] by simp
  moreover have "activeEffect (track_all ls ?s1) = activeEffect s" using i2 a1 by simp
  moreover have "set (members (depStore (track_all ls ?s1) d))
         \<subseteq> set (members (depStore s d)) \<union> set_option (activeEffect s)"
    using i3 m1 unfolding a1 by blast
  ultimately show ?case unfolding ta by blast
qed

lemma track_all_other:
  assumes "activeEffect s \<noteq> Some x"
  shows "effects (track_all ls s) x = effects s x"
    and "activeEffect (track_all ls s) = activeEffect s"
    and "set (members (depStore (track_all ls s) d))
           \<subseteq> set (members (depStore s d)) \<union> set_option (activeEffect s)"
  using track_all_other_conj [OF assms] by blast+

lemma cleanupEffect_purges:
  assumes G: "graph_ok s"
  shows "e \<notin> set (members (depStore (cleanupEffect e s) d))"
    and "deps (effects (cleanupEffect e s) e) = []"
  using graph_okD3 [OF G, of e d]
  by (auto simp: cleanupEffect_eq set_delete_def)

lemma cleanupEffect_purges_raw:
  "d \<in> set (deps (effects s e)) \<or> e \<notin> set (members (depStore s d))
   \<Longrightarrow> e \<notin> set (members (depStore (cleanupEffect e s) d))"
  by (auto simp: cleanupEffect_eq set_delete_def)

lemma cleanupEffect_fields:
  "activeEffect (cleanupEffect e s) = activeEffect s"
  "active (effects (cleanupEffect e s) x) = active (effects s x)"
  "onStop (effects (cleanupEffect e s) x) = onStop (effects s x)"
  "onStop_calls (effects (cleanupEffect e s) x) = onStop_calls (effects s x)"
  "deferStop (effects (cleanupEffect e s) x) = deferStop (effects s x)"
  "nextEffect (cleanupEffect e s) = nextEffect s"
  "fn (effects (cleanupEffect e s) x) = fn (effects s x)"
  "shouldTrack (cleanupEffect e s) = shouldTrack s"
  "effectTrackDepth (cleanupEffect e s) = effectTrackDepth s"
  "trackOpBit (cleanupEffect e s) = trackOpBit s"
  by (simp_all add: cleanupEffect_eq)

lemma stop_idle_raw:
  assumes A: "active (effects s e)" and N: "activeEffect s \<noteq> Some e"
    and H: "onStop (effects s e) = None \<or> (\<exists>hs. onStop (effects s e) = Some (reads hs))"
  shows "\<exists>s'. stop env (Suc f) e s = Some (Normal Undefined, s')
     \<and> (\<forall>d. d \<in> set (deps (effects s e)) \<or> e \<notin> set (members (depStore s d))
              \<longrightarrow> e \<notin> set (members (depStore s' d)))
     \<and> deps (effects s' e) = []
     \<and> \<not> active (effects s' e)
     \<and> onStop_calls (effects s' e)
         = (if onStop (effects s e) = None then onStop_calls (effects s e)
            else Suc (onStop_calls (effects s e)))
     \<and> activeEffect s' = activeEffect s
     \<and> nextEffect s' = nextEffect s
     \<and> fn (effects s' e) = fn (effects s e)
     \<and> shouldTrack s' = shouldTrack s
     \<and> effectTrackDepth s' = effectTrackDepth s \<and> trackOpBit s' = trackOpBit s"
proof (cases "onStop (effects s e)")
  case None
  let ?s' = "upd_effect e (\<lambda>x. x\<lparr>active := False\<rparr>) (cleanupEffect e s)"
  have "stop env (Suc f) e s = Some (Normal Undefined, ?s')"
    using A N None by (simp add: stop_def stop_with_def cleanupEffect_fields)
  moreover have "\<forall>d. d \<in> set (deps (effects s e)) \<or> e \<notin> set (members (depStore s d))
              \<longrightarrow> e \<notin> set (members (depStore ?s' d))"
    using cleanupEffect_purges_raw [of _ s e] by (simp add: upd_effect_def)
  moreover have "deps (effects ?s' e) = []"
    by (simp add: upd_effect_def cleanupEffect_eq)
  moreover have "\<not> active (effects ?s' e)" by (simp add: upd_effect_def)
  moreover have "onStop_calls (effects ?s' e) = onStop_calls (effects s e)"
    by (simp add: upd_effect_def cleanupEffect_fields)
  moreover have "activeEffect ?s' = activeEffect s" "nextEffect ?s' = nextEffect s"
    "fn (effects ?s' e) = fn (effects s e)" "shouldTrack ?s' = shouldTrack s"
    "effectTrackDepth ?s' = effectTrackDepth s" "trackOpBit ?s' = trackOpBit s"
    by (simp_all add: upd_effect_def cleanupEffect_fields)
  ultimately show ?thesis using None by simp
next
  case (Some hook)
  with H obtain hs where hk: "hook = reads hs" by auto
  let ?s1 = "upd_effect e (\<lambda>x. x\<lparr>onStop_calls := Suc (onStop_calls x)\<rparr>) (cleanupEffect e s)"
  let ?s2 = "track_all hs ?s1"
  let ?s' = "upd_effect e (\<lambda>x. x\<lparr>active := False\<rparr>) ?s2"
  have a1: "activeEffect ?s1 = activeEffect s"
    by (simp add: upd_effect_def cleanupEffect_fields)
  then have n1: "activeEffect ?s1 \<noteq> Some e" using N by simp
  note o = track_all_other [OF n1, of hs]
  have m1: "e \<notin> set (members (depStore ?s1 d))"
    if "d \<in> set (deps (effects s e)) \<or> e \<notin> set (members (depStore s d))" for d
    using cleanupEffect_purges_raw [OF that] by (simp add: upd_effect_def)
  have d1: "deps (effects ?s1 e) = []"
    by (simp add: upd_effect_def cleanupEffect_eq)
  have c1: "onStop_calls (effects ?s1 e) = Suc (onStop_calls (effects s e))"
    by (simp add: upd_effect_def cleanupEffect_fields)
  have ne1: "nextEffect ?s1 = nextEffect s"
    by (simp add: upd_effect_def cleanupEffect_fields)
  have sh: "shell_eq ?s1 ?s2"
    unfolding track_all_def
    by (induction hs arbitrary: s rule: rev_induct)
       (auto intro: shell_eq_trans track_shell)
  have es': "effects ?s' e = (effects ?s2 e)\<lparr>active := False\<rparr>"
    by (simp add: upd_effect_def)
  have "stop env (Suc f) e s = Some (Normal Undefined, ?s')"
    using A N Some hk
    by (simp add: stop_def stop_with_def cleanupEffect_fields Let_def seq_reads)
  moreover have "\<forall>d. d \<in> set (deps (effects s e)) \<or> e \<notin> set (members (depStore s d))
              \<longrightarrow> e \<notin> set (members (depStore ?s' d))"
  proof (intro allI impI)
    fix d assume dd: "d \<in> set (deps (effects s e)) \<or> e \<notin> set (members (depStore s d))"
    have "e \<notin> set (members (depStore ?s2 d))"
      using o(3) [of d] m1 [OF dd] n1 by (auto simp: a1)
    then show "e \<notin> set (members (depStore ?s' d))" by (simp add: upd_effect_def)
  qed
  moreover have "deps (effects ?s' e) = []"
    unfolding es' o(1) using d1 by simp
  moreover have "\<not> active (effects ?s' e)" by (simp add: upd_effect_def)
  moreover have "onStop_calls (effects ?s' e) = Suc (onStop_calls (effects s e))"
    unfolding es' o(1) using c1 by simp
  moreover have "activeEffect ?s' = activeEffect s"
    using o(2) a1 by (simp add: upd_effect_def)
  moreover have "nextEffect ?s' = nextEffect s"
    using sh ne1 by (simp add: upd_effect_def shell_eq_def)
  moreover have "fn (effects ?s' e) = fn (effects s e)"
    unfolding es' o(1) by (simp add: upd_effect_def cleanupEffect_fields)
  moreover have "shouldTrack ?s' = shouldTrack s"
    by (simp add: upd_effect_def shouldTrack_track_all cleanupEffect_fields)
  moreover have "effectTrackDepth ?s' = effectTrackDepth s" "trackOpBit ?s' = trackOpBit s"
    using sh by (simp_all add: upd_effect_def shell_eq_def, simp_all add: cleanupEffect_fields)
  ultimately show ?thesis using Some by simp
qed

lemma stop_idle:
  assumes G: "graph_ok s" and A: "active (effects s e)" and N: "activeEffect s \<noteq> Some e"
    and H: "onStop (effects s e) = None \<or> (\<exists>hs. onStop (effects s e) = Some (reads hs))"
  shows "\<exists>s'. stop env (Suc f) e s = Some (Normal Undefined, s')
     \<and> (\<forall>d. e \<notin> set (members (depStore s' d)))
     \<and> deps (effects s' e) = []
     \<and> \<not> active (effects s' e)
     \<and> onStop_calls (effects s' e)
         = (if onStop (effects s e) = None then onStop_calls (effects s e)
            else Suc (onStop_calls (effects s e)))
     \<and> activeEffect s' = activeEffect s
     \<and> nextEffect s' = nextEffect s
     \<and> fn (effects s' e) = fn (effects s e)
     \<and> shouldTrack s' = shouldTrack s
     \<and> effectTrackDepth s' = effectTrackDepth s \<and> trackOpBit s' = trackOpBit s"
proof -
  have all: "d \<in> set (deps (effects s e)) \<or> e \<notin> set (members (depStore s d))" for d
    using graph_okD3 [OF G, of e d] by blast
  from stop_idle_raw [OF A N H, of env f] show ?thesis
    using all by blast
qed

lemma stop_again:
  "activeEffect s \<noteq> Some e \<Longrightarrow> \<not> active (effects s e)
   \<Longrightarrow> stop env f e s = Some (Normal Undefined, s)"
  by (simp add: stop_def stop_with_def)

lemma stop_running:
  "activeEffect s = Some e
   \<Longrightarrow> stop env f e s = Some (Normal Undefined, upd_effect e (\<lambda>x. x\<lparr>deferStop := True\<rparr>) s)"
  by (simp add: stop_def stop_with_def)

lemma run_reads_then_stop:
  assumes G: "graph_ok s" and A: "active (effects s e)"
    and C: "chain_has (parents s) (activeEffect s) e = Some False"
    and MC: "markers_clear s (effectTrackDepth s + 1)"
    and B: "fn (effects s e) = reads ls @ [Stop e] @ rest" and R: "rest = [] \<or> rest = [Throw]"
    and E: "e < nextEffect s"
    and H: "onStop (effects s e) = None \<or> (\<exists>hs. onStop (effects s e) = Some (reads hs))"
  shows "\<exists>s2 s'. exec env (Suc f) (fn (effects s e)) (enter_fn e (run_enter e s))
                    = Some (if rest = [] then Normal Undefined else Thrown, s2)
     \<and> deferStop (effects s2 e) \<and> active (effects s2 e)
     \<and> onStop_calls (effects s2 e) = onStop_calls (effects s e)
     \<and> (\<forall>l\<in>set ls. subscribed s2 e l)
     \<and> run env (Suc f) e s = Some (if rest = [] then Normal (fn_value e s) else Thrown, s')
     \<and> (\<forall>d. e \<notin> set (members (depStore s' d)))
     \<and> deps (effects s' e) = []
     \<and> \<not> active (effects s' e)
     \<and> onStop_calls (effects s' e)
         = (if onStop (effects s e) = None then onStop_calls (effects s e)
            else Suc (onStop_calls (effects s e)))
     \<and> activeEffect s' = activeEffect s \<and> shouldTrack s' = shouldTrack s
     \<and> effectTrackDepth s' = effectTrackDepth s
     \<and> trackOpBit s' = shl1 (effectTrackDepth s)"
proof -
  let ?D = "effectTrackDepth s"
  let ?s1 = "enter_fn e (run_enter e s)"
  let ?s2a = "track_all ls ?s1"
  let ?s2 = "upd_effect e (\<lambda>x. x\<lparr>deferStop := True\<rparr>) ?s2a"
  let ?s3 = "run_exit e (shouldTrack s) ?s2"
  note g1 = run_enter_graph(1) [OF G MC, of e]
  note t1 = run_enter_graph(2) [OF G MC, of e]
  from track_all_ok [OF g1 t1, of ls] have g2a: "graph_ok ?s2a" and t2a: "tracking ?s2a e"
    and f2: "tframe ?s1 ?s2a e"
    and in2: "\<forall>l\<in>set ls. \<exists>d. dep_of ?s2a l = Some d \<and> d \<in> set (deps (effects ?s2a e))"
    by blast+
  have d2a: "effectTrackDepth ?s2a = ?D + 1" and ne2a: "nextEffect ?s2a = nextEffect s"
    using f2 by (simp_all add: tframe_def run_enter_facts)
  have a2a: "activeEffect ?s2a = Some e" using t2a by (simp add: tracking_def)
  have e2: "effects ?s2a e = (effects ?s1 e)\<lparr>deps := deps (effects ?s2a e)\<rparr>"
    using f2 unfolding tframe_def by blast
  have e1: "effects ?s1 e = (effects s e)\<lparr>parent := activeEffect s, deps := [],
                                fn_calls := Suc (fn_calls (effects s e))\<rparr>"
    by (simp add: run_enter_eq)
  have fld2a: "active (effects ?s2a e)" "parent (effects ?s2a e) = activeEffect s"
    "onStop (effects ?s2a e) = onStop (effects s e)"
    "onStop_calls (effects ?s2a e) = onStop_calls (effects s e)"
    using A by (subst e2, simp add: e1)+
  have body: "exec env (Suc f) (fn (effects s e)) ?s1
                = Some (if rest = [] then Normal Undefined else Thrown, ?s2)"
    using E a2a R by (auto simp: B seq_app seq_reads ne2a stop_with_def)
  have es2: "effects ?s2 = (effects ?s2a)(e := (effects ?s2a e)\<lparr>deferStop := True\<rparr>)"
    by (simp add: upd_effect_def)
  have fld2: "deferStop (effects ?s2 e)" "active (effects ?s2 e)"
    "parent (effects ?s2 e) = activeEffect s"
    "onStop (effects ?s2 e) = onStop (effects s e)"
    "onStop_calls (effects ?s2 e) = onStop_calls (effects s e)"
    using fld2a by (simp_all add: es2)
  have sh2: "targetMap ?s2 = targetMap ?s2a" "nextDep ?s2 = nextDep ?s2a"
    "depStore ?s2 = depStore ?s2a" "activeEffect ?s2 = activeEffect ?s2a"
    "shouldTrack ?s2 = shouldTrack ?s2a" "trackOpBit ?s2 = trackOpBit ?s2a"
    "effectTrackDepth ?s2 = effectTrackDepth ?s2a"
    by (simp_all add: upd_effect_def)
  have dp2: "deps (effects ?s2 x) = deps (effects ?s2a x)" for x
    by (simp add: es2)
  have g2: "graph_ok ?s2"
    using g2a graph_ok_cong [of ?s2 ?s2a] sh2 dp2 by simp
  have t2: "tracking ?s2 e"
    using t2a by (simp add: tracking_def sh2 dp2)
  have d2: "effectTrackDepth ?s2 = ?D + 1" by (simp add: sh2 d2a)
  have sub2: "\<forall>l\<in>set ls. subscribed ?s2 e l"
  proof
    fix l assume "l \<in> set ls"
    with in2 obtain d where "dep_of ?s2a l = Some d" "d \<in> set (deps (effects ?s2a e))" by blast
    then have "subscribed ?s2a e l" by (auto simp: subscribed_iff graph_okD3 [OF g2a])
    then show "subscribed ?s2 e l" using subscribed_cong [OF sh2(1) sh2(3)] by simp
  qed
  note x = run_exit_tracking [OF g2 t2 d2, where b = "shouldTrack s"]
  have fld3: "deferStop (effects ?s3 e)" "active (effects ?s3 e)"
    "onStop (effects ?s3 e) = onStop (effects s e)"
    "onStop_calls (effects ?s3 e) = onStop_calls (effects s e)"
    using fld2 by (simp_all add: x(3))
  have a3: "activeEffect ?s3 = activeEffect s" by (simp add: x(8) fld2)
  have N: "activeEffect s \<noteq> Some e" using C by auto
  then have n3: "activeEffect ?s3 \<noteq> Some e" by (simp add: a3)
  have h3: "onStop (effects ?s3 e) = None \<or> (\<exists>hs. onStop (effects ?s3 e) = Some (reads hs))"
    using H by (simp add: fld3)
  from stop_idle [OF x(1) fld3(2) n3 h3, of env f] obtain s' where
    st: "stop env (Suc f) e ?s3 = Some (Normal Undefined, s')"
    and r: "\<forall>d. e \<notin> set (members (depStore s' d))" "deps (effects s' e) = []"
      "\<not> active (effects s' e)"
      "onStop_calls (effects s' e)
         = (if onStop (effects ?s3 e) = None then onStop_calls (effects ?s3 e)
            else Suc (onStop_calls (effects ?s3 e)))"
      "activeEffect s' = activeEffect ?s3" "shouldTrack s' = shouldTrack ?s3"
      "effectTrackDepth s' = effectTrackDepth ?s3" "trackOpBit s' = trackOpBit ?s3"
    by blast
  have run: "run env (Suc f) e s = Some (if rest = [] then Normal (fn_value e s) else Thrown, s')"
    using A C body fld3(1) st
    by (simp add: run_def run_with_def stop_def returning_def Let_def del: exec.simps)
  have ctx: "shouldTrack ?s3 = shouldTrack s" "effectTrackDepth ?s3 = effectTrackDepth s"
    "trackOpBit ?s3 = shl1 (effectTrackDepth s)"
    by (simp_all add: x)
  show ?thesis
    using body fld2(1,2,5) sub2 run r unfolding fld3 a3 ctx by blast
qed

lemma seq_Normal: "seq g xs s = Some (Normal v, s') \<Longrightarrow> v = Undefined"
  by (induction xs arbitrary: s) (auto split: option.splits completion.splits)


lemma seq_single_seq: "seq (\<lambda>c. seq g (h c)) [x] s = seq g (h x) s"
proof (cases "seq g (h x) s")
  case None
  then show ?thesis by simp
next
  case (Some a)
  obtain r s' where a: "a = (r, s')" by (cases a)
  show ?thesis
  proof (cases r)
    case (Normal v)
    with Some a seq_Normal [of g "h x" s v s'] show ?thesis by simp
  next
    case Thrown
    with Some a show ?thesis by simp
  qed
qed
















lemma track_all_shell: "shell_eq s (track_all ls s)"
  unfolding track_all_def
  by (induction ls arbitrary: s rule: rev_induct) (auto intro: shell_eq_trans track_shell)

lemma shl1_succ_disjoint': "shl1 (k + 1) AND shl1 k = 0"
  using shl1_succ_disjoint [of k] by (simp add: and.commute)

lemma shl1_succ2_disjoint: "shl1 (k + 2) AND shl1 (k + 1) = 0"
  using shl1_succ_disjoint' [of "k + 1"] by (simp add: add.assoc)

lemma shl1_succ2_disjoint': "shl1 (k + 1) AND shl1 (k + 2) = 0"
  using shl1_succ2_disjoint [of k] by (simp add: and.commute)

text \<open>
  The run of an effect whose body reads, creates an effect that reads, and reads again.
\<close>

lemma nested_run:
  assumes G: "graph_ok s" and W: "ctx_ok s es" and N: "e \<notin> set es" and E: "e < nextEffect s"
    and A: "active (effects s e)" and DS: "\<not> deferStop (effects s e)"
    and MC1: "markers_clear s (effectTrackDepth s + 1)"
    and MC2: "markers_clear s (effectTrackDepth s + 2)"
    and B: "fn (effects s e)
              = body_of so1 @ [Effect (body_of si) res False None False None] @ body_of so2"
  shows "\<exists>s'. run env (Suc (Suc f)) e s = Some (Normal (fn_value e s), s')
     \<and> graph_ok s'
     \<and> (\<forall>l. subscribed s' e l \<longleftrightarrow> l \<in> set (tracked_reads so1) \<union> set (tracked_reads so2))
     \<and> (\<forall>l. subscribed s' (nextEffect s) l \<longleftrightarrow> l \<in> set (tracked_reads si))
     \<and> (\<forall>x. x \<noteq> e \<and> x \<noteq> nextEffect s \<longrightarrow> effects s' x = effects s x)
     \<and> activeEffect s' = activeEffect s \<and> shouldTrack s' = shouldTrack s
     \<and> effectTrackDepth s' = effectTrackDepth s
     \<and> nextEffect s' = Suc (nextEffect s)
     \<and> fn_calls (effects s' e) = Suc (fn_calls (effects s e))
     \<and> fn_calls (effects s' (nextEffect s)) = 1
     \<and> parent (effects s' e) = None \<and> parent (effects s' (nextEffect s)) = None"
proof -
  let ?D = "effectTrackDepth s"
  let ?i = "nextEffect s"
  let ?s1 = "enter_fn e (run_enter e s)"
  let ?u1 = "track_all (tracked_reads so1) ?s1"
  let ?v = "new_user_effect (body_of si) res None False None ?u1"
  \<comment> \<open>the reads before the inner effect\<close>
  note g1 = run_enter_graph(1) [OF G MC1, of e]
  note t1 = run_enter_graph(2) [OF G MC1, of e]
  from track_all_ok [OF g1 t1, of "tracked_reads so1"] have gu1: "graph_ok ?u1"
    and tu1: "tracking ?u1 e" and fu1: "tframe ?s1 ?u1 e"
    and in1: "\<forall>l\<in>set (tracked_reads so1). \<exists>d. dep_of ?u1 l = Some d \<and> d \<in> set (deps (effects ?u1 e))"
    and out1: "\<forall>d\<in>set (deps (effects ?u1 e)).
            d \<in> set (deps (effects ?s1 e)) \<or> (\<exists>l\<in>set (tracked_reads so1). dep_of ?u1 l = Some d)"
    by blast+
  have e1: "effects ?s1 e = (effects s e)\<lparr>parent := activeEffect s, deps := [],
                                fn_calls := Suc (fn_calls (effects s e))\<rparr>"
    and o1: "\<And>x. x \<noteq> e \<Longrightarrow> effects ?s1 x = effects s x"
    by (simp_all add: run_enter_eq)
  have eu1: "effects ?u1 e = (effects ?s1 e)\<lparr>deps := deps (effects ?u1 e)\<rparr>"
    and ou1: "\<And>x. x \<noteq> e \<Longrightarrow> effects ?u1 x = effects ?s1 x"
    using fu1 unfolding tframe_def by blast+
  have cu1: "activeEffect ?u1 = Some e" "shouldTrack ?u1" "effectTrackDepth ?u1 = ?D + 1"
    "trackOpBit ?u1 = shl1 (?D + 1)" "nextEffect ?u1 = ?i"
    using fu1 unfolding tframe_def by (simp_all add: run_enter_facts)
  have nu1: "\<And>d b. b AND shl1 (?D + 1) = 0 \<Longrightarrow> n (depStore ?u1 d) AND b = n (depStore s d) AND b"
    and wu1: "\<And>d. w (depStore ?u1 d) = w (depStore s d)"
    using fu1 unfolding tframe_def by (simp_all add: run_enter_facts, simp_all add: run_enter_eq)
  \<comment> \<open>the context\<close>
  have w1: "ctx_ok ?s1 (e # es)" by (rule run_enter_wf [OF W N E])
  have cw1: "ctx_ok ?u1 (e # es)" by (rule shell_wf(1) [OF track_all_shell w1])
  have cwv: "ctx_ok ?v (e # es)" by (rule new_user_effect_wf(1) [OF cw1])
  have bound: "\<forall>x\<in>set (e # es). x < ?i"
    using cw1 unfolding ctx_ok_def cu1 by blast
  then have ne: "e \<noteq> ?i" and ni: "?i \<notin> set (e # es)" by auto
  from cwv have "is_chain (parents ?v) (activeEffect ?v) (e # es)" by (simp add: ctx_ok_def)
  from is_chain_chain_has [OF this, of ?i] ni
  have Cv: "chain_has (parents ?v) (activeEffect ?v) ?i = Some False" by simp
  \<comment> \<open>the inner effect\<close>
  have F: "\<forall>d. nextEffect ?u1 \<notin> set (members (depStore ?u1 d))"
    using cw1 unfolding ctx_ok_def by blast
  have gv: "graph_ok ?v" by (rule graph_ok_new_user_effect [OF gu1 F])
  have ev: "effects ?v ?i = (new_effect (body_of si) res None)\<lparr>allowRecurse := False, onStop := None\<rparr>"
    and ov: "\<And>x. x \<noteq> ?i \<Longrightarrow> effects ?v x = effects ?u1 x"
    and shv: "depStore ?v = depStore ?u1" "targetMap ?v = targetMap ?u1"
      "activeEffect ?v = activeEffect ?u1" "shouldTrack ?v = shouldTrack ?u1"
      "effectTrackDepth ?v = effectTrackDepth ?u1" "trackOpBit ?v = trackOpBit ?u1"
      "nextEffect ?v = Suc ?i"
    by (simp_all add: new_user_effect_def cu1)
  have Av: "active (effects ?v ?i)" and DSv: "\<not> deferStop (effects ?v ?i)"
    and fv: "fn (effects ?v ?i) = body_of si" "fn_calls (effects ?v ?i) = 0"
    by (simp_all add: ev new_effect_def)
  have MCv: "markers_clear ?v (effectTrackDepth ?v + 1)"
    unfolding markers_clear_def shv cu1
  proof (intro impI allI conjI)
    fix d assume le: "?D + 1 + 1 \<le> maxMarkerBits"
    have eq: "?D + 1 + 1 = ?D + 2" by simp
    from MC2 le have c: "n (depStore s d) AND shl1 (?D + 2) = 0" "w (depStore s d) AND shl1 (?D + 2) = 0"
      by (simp_all add: markers_clear_def)
    show "n (depStore ?u1 d) AND shl1 (?D + 1 + 1) = 0"
      unfolding eq using nu1 [OF shl1_succ2_disjoint, of d] c(1) by simp
    show "w (depStore ?u1 d) AND shl1 (?D + 1 + 1) = 0"
      unfolding eq using c(2) by (simp add: wu1)
  qed
  have stv: "shouldTrack (enter_fn ?i (run_enter ?i ?v))" by (simp add: run_enter_eq)
  have Bv: "exec env (Suc f) (fn (effects ?v ?i)) (enter_fn ?i (run_enter ?i ?v))
              = Some (Normal Undefined,
                  track_all (tracked_reads si) (enter_fn ?i (run_enter ?i ?v)))"
    using seq_body_of [OF stv, of env "exec env f" si] by (simp add: fv)
  from run_tracks [OF gv Av DSv Cv MCv Bv] obtain v' where
    rv: "run env (Suc f) ?i ?v = Some (Normal (fn_value ?i ?v), v')"
    and gv': "graph_ok v'"
    and monov: "\<forall>l d. dep_of ?v l = Some d \<longrightarrow> dep_of v' l = Some d"
    and subi: "\<forall>l. subscribed v' ?i l \<longleftrightarrow> l \<in> set (tracked_reads si)"
    and ov': "\<forall>x. x \<noteq> ?i \<longrightarrow> effects v' x = effects ?v x"
    and ev': "effects v' ?i = (effects ?v ?i)\<lparr>deps := deps (effects v' ?i), parent := None,
                                      fn_calls := Suc (fn_calls (effects ?v ?i))\<rparr>"
    and cv': "activeEffect v' = activeEffect ?v" "shouldTrack v' = shouldTrack ?v"
      "effectTrackDepth v' = effectTrackDepth ?v" "trackOpBit v' = shl1 (effectTrackDepth ?v)"
      "nextEffect v' = nextEffect ?v"
    and wv': "\<forall>d. w (depStore v' d) = w (depStore ?v d)"
    and nv': "\<forall>d b. b AND shl1 (effectTrackDepth ?v + 1) = 0
            \<longrightarrow> n (depStore v' d) AND b = n (depStore ?v d) AND b"
    by blast
  \<comment> \<open>back in the outer effect\<close>
  have de: "deps (effects v' e) = deps (effects ?u1 e)"
    using ov' ne ov [of e] by simp
  have nb: "n (depStore v' d) AND shl1 (?D + 1) = n (depStore ?u1 d) AND shl1 (?D + 1)" for d
  proof -
    have "shl1 (?D + 1) AND shl1 (effectTrackDepth ?v + 1) = 0"
      unfolding shv cu1 using shl1_succ2_disjoint' [of ?D] by (simp add: add.assoc)
    with nv' show ?thesis by (simp add: shv)
  qed
  have tv': "tracking v' e"
    unfolding tracking_def
  proof (intro conjI impI allI)
    show "activeEffect v' = Some e" by (simp add: cv' shv cu1)
    show "shouldTrack v'" by (simp add: cv' shv cu1)
    show "shl1 (effectTrackDepth v') = trackOpBit v'" by (simp add: cv')
    show "distinct (deps (effects v' e))" using tu1 by (simp add: de tracking_def)
  next
    fix d assume "effectTrackDepth v' \<le> maxMarkerBits"
    then have le: "effectTrackDepth ?u1 \<le> maxMarkerBits" by (simp add: cv' shv)
    have b: "trackOpBit v' = shl1 (?D + 1)" by (simp add: cv' shv cu1)
    from tu1 le have k: "n (depStore ?u1 d) AND shl1 (?D + 1) \<noteq> 0 \<longleftrightarrow> d \<in> set (deps (effects ?u1 e))"
      "w (depStore ?u1 d) AND shl1 (?D + 1) = 0"
      unfolding tracking_def cu1 by blast+
    show "n (depStore v' d) AND trackOpBit v' \<noteq> 0 \<longleftrightarrow> d \<in> set (deps (effects v' e))"
      unfolding b nb de by (rule k(1))
    show "w (depStore v' d) AND trackOpBit v' = 0"
      unfolding b using k(2) wv' by (simp add: shv)
  qed
  let ?u2 = "track_all (tracked_reads so2) v'"
  from track_all_ok [OF gv' tv', of "tracked_reads so2"] have gu2: "graph_ok ?u2"
    and tu2: "tracking ?u2 e" and fu2: "tframe v' ?u2 e"
    and in2: "\<forall>l\<in>set (tracked_reads so2). \<exists>d. dep_of ?u2 l = Some d \<and> d \<in> set (deps (effects ?u2 e))"
    and out2: "\<forall>d\<in>set (deps (effects ?u2 e)).
            d \<in> set (deps (effects v' e)) \<or> (\<exists>l\<in>set (tracked_reads so2). dep_of ?u2 l = Some d)"
    by blast+
  have eu2: "effects ?u2 e = (effects v' e)\<lparr>deps := deps (effects ?u2 e)\<rparr>"
    and ou2: "\<And>x. x \<noteq> e \<Longrightarrow> effects ?u2 x = effects v' x"
    using fu2 unfolding tframe_def by blast+
  note mono2 = tframeD_dep [OF fu2]
  note grow2 = tframeD_deps [OF fu2]
  have "effectTrackDepth ?u2 = effectTrackDepth v'" "nextEffect ?u2 = nextEffect v'"
    using fu2 unfolding tframe_def by blast+
  then have cu2: "effectTrackDepth ?u2 = ?D + 1" "nextEffect ?u2 = Suc ?i"
    by (simp_all add: cv' shv cu1)
  note subi2 = track_all_subscribed(2) [OF gv' tv', where ls = "tracked_reads so2" and x = ?i]
  \<comment> \<open>the body as a whole\<close>
  have st1: "shouldTrack ?s1" by (simp add: run_enter_eq)
  have stv': "shouldTrack v'" by (simp add: cv' shv cu1)
  have p1: "seq (exec1 env (exec env (Suc f))) (body_of so1) ?s1 = Some (Normal Undefined, ?u1)"
    by (rule seq_body_of [OF st1])
  have p2: "exec1 env (exec env (Suc f)) (Effect (body_of si) res False None False None) ?u1
              = Some (Normal Undefined, v')"
    using rv by (simp add: cu1 run_def forget_def del: exec.simps)
  have p3: "seq (exec1 env (exec env (Suc f))) (body_of so2) v' = Some (Normal Undefined, ?u2)"
    by (rule seq_body_of [OF stv'])
  have "seq (exec1 env (exec env (Suc f))) (fn (effects s e)) ?s1 = Some (Normal Undefined, ?u2)"
    using p1 p2 p3 by (simp add: B seq_app del: exec.simps exec1.simps)
  then have body: "exec env (Suc (Suc f)) (fn (effects s e)) ?s1 = Some (Normal Undefined, ?u2)"
    by (simp only: exec.simps)
  from W have "is_chain (parents s) (activeEffect s) es" by (simp add: ctx_ok_def)
  from is_chain_chain_has [OF this, of e] N
  have C: "chain_has (parents s) (activeEffect s) e = Some False" by simp
  let ?s3 = "run_exit e (shouldTrack s) ?u2"
  note x = run_exit_tracking [OF gu2 tu2 cu2(1), where b = "shouldTrack s"]
  have ev'e: "effects v' e = effects ?u1 e" using ov' ne ov [of e] by simp
  have fld: "deferStop (effects ?u2 e) = deferStop (effects s e)"
    "parent (effects ?u2 e) = activeEffect s"
    "fn_calls (effects ?u2 e) = Suc (fn_calls (effects s e))"
    by (subst eu2, simp add: ev'e, subst eu1, simp add: e1)+
  have ds3: "\<not> deferStop (effects ?s3 e)" using DS by (simp add: x(3) fld)
  have run: "run env (Suc (Suc f)) e s = Some (Normal (fn_value e s), ?s3)"
    using A C body ds3
    by (simp add: run_def run_with_def returning_def Let_def del: exec.simps)
  \<comment> \<open>the subscriptions of the outer effect\<close>
  have deps3: "deps (effects ?s3 y) = deps (effects ?u2 y)" for y by (simp add: x(3))
  have dpv: "\<And>l. dep_of ?v l = dep_of ?u1 l" by (rule dep_of_cong) (simp add: shv)
  have mono: "dep_of ?s3 l = Some d" if "dep_of ?u1 l = Some d" for l d
    using mono2 [of l d] monov that by (simp add: x(5) dpv)
  have deps1: "deps (effects ?s1 e) = []" by (simp add: e1)
  have set3: "set (deps (effects ?s3 e))
                = {d. \<exists>l\<in>set (tracked_reads so1) \<union> set (tracked_reads so2). dep_of ?s3 l = Some d}"
  proof (intro set_eqI iffI)
    fix d assume "d \<in> set (deps (effects ?s3 e))"
    then have "d \<in> set (deps (effects ?u2 e))" by (simp add: deps3)
    with out2 have "d \<in> set (deps (effects v' e))
        \<or> (\<exists>l\<in>set (tracked_reads so2). dep_of ?u2 l = Some d)" by blast
    then show "d \<in> {d. \<exists>l\<in>set (tracked_reads so1) \<union> set (tracked_reads so2). dep_of ?s3 l = Some d}"
    proof
      assume "d \<in> set (deps (effects v' e))"
      then have "d \<in> set (deps (effects ?u1 e))" by (simp add: de)
      with out1 deps1 obtain l where "l \<in> set (tracked_reads so1)" "dep_of ?u1 l = Some d"
        by auto
      with mono [of l d] show ?thesis by blast
    next
      assume "\<exists>l\<in>set (tracked_reads so2). dep_of ?u2 l = Some d"
      then show ?thesis by (auto simp: x(5))
    qed
  next
    fix d assume "d \<in> {d. \<exists>l\<in>set (tracked_reads so1) \<union> set (tracked_reads so2). dep_of ?s3 l = Some d}"
    then obtain l where l: "l \<in> set (tracked_reads so1) \<union> set (tracked_reads so2)"
      and dl: "dep_of ?s3 l = Some d" by blast
    from l show "d \<in> set (deps (effects ?s3 e))"
    proof
      assume "l \<in> set (tracked_reads so1)"
      with in1 obtain d' where d': "dep_of ?u1 l = Some d'" "d' \<in> set (deps (effects ?u1 e))"
        by blast
      from mono [OF d'(1)] dl have "d' = d" by simp
      with d'(2) grow2 show ?thesis by (auto simp: deps3 de)
    next
      assume "l \<in> set (tracked_reads so2)"
      with in2 obtain d' where d': "dep_of ?u2 l = Some d'" "d' \<in> set (deps (effects ?u2 e))"
        by blast
      with dl show ?thesis by (simp add: x(5) deps3)
    qed
  qed
  have sube: "subscribed ?s3 e l \<longleftrightarrow> l \<in> set (tracked_reads so1) \<union> set (tracked_reads so2)" for l
  proof
    assume "subscribed ?s3 e l"
    then obtain d where d: "dep_of ?s3 l = Some d" and "e \<in> set (members (depStore ?s3 d))"
      by (auto simp: subscribed_iff)
    then have "d \<in> set (deps (effects ?s3 e))" by (simp add: graph_okD3 [OF x(1)])
    with set3 obtain l' where l': "l' \<in> set (tracked_reads so1) \<union> set (tracked_reads so2)"
      "dep_of ?s3 l' = Some d" by auto
    with d graph_okD2 [OF x(1), of l d l'] show "l \<in> set (tracked_reads so1) \<union> set (tracked_reads so2)"
      by simp
  next
    assume "l \<in> set (tracked_reads so1) \<union> set (tracked_reads so2)"
    then have "\<exists>d. dep_of ?s3 l = Some d \<and> d \<in> set (deps (effects ?s3 e))"
    proof
      assume a: "l \<in> set (tracked_reads so1)"
      with in1 obtain d where d: "dep_of ?u1 l = Some d" "d \<in> set (deps (effects ?u1 e))" by blast
      from mono [OF d(1)] have "dep_of ?s3 l = Some d" .
      then show ?thesis using set3 a by blast
    next
      assume a: "l \<in> set (tracked_reads so2)"
      with in2 obtain d where "dep_of ?u2 l = Some d" by blast
      then have "dep_of ?s3 l = Some d" by (simp add: x(5))
      then show ?thesis using set3 a by blast
    qed
    then show "subscribed ?s3 e l" by (auto simp: subscribed_iff graph_okD3 [OF x(1)])
  qed
  \<comment> \<open>the subscriptions of the inner effect\<close>
  have s3i: "subscribed ?s3 ?i l \<longleftrightarrow> subscribed ?u2 ?i l" for l
    by (simp add: subscribed_def x(4) x(5) cong: option.case_cong)
  have neq: "?i \<noteq> e" using ne by simp
  have subin: "subscribed ?s3 ?i l \<longleftrightarrow> l \<in> set (tracked_reads si)" for l
    using subi2 [OF neq, of l] subi by (simp add: s3i)
  \<comment> \<open>the rest\<close>
  have oth: "effects ?s3 y = effects s y" if "y \<noteq> e \<and> y \<noteq> ?i" for y
    using that by (simp add: x(3) ou2 ov' ov ou1 o1)
  have e3i: "effects ?s3 ?i = effects v' ?i" using neq by (simp add: x(3) ou2)
  have ci: "fn_calls (effects ?s3 ?i) = 1" "parent (effects ?s3 ?i) = None"
    unfolding e3i by (subst ev', simp add: fv)+
  have ce: "fn_calls (effects ?s3 e) = Suc (fn_calls (effects s e))" "parent (effects ?s3 e) = None"
    by (simp_all add: x(3) fld)
  have misc: "activeEffect ?s3 = activeEffect s" "shouldTrack ?s3 = shouldTrack s"
    "effectTrackDepth ?s3 = effectTrackDepth s" "nextEffect ?s3 = Suc ?i"
    by (simp_all add: x fld cu2)
  show ?thesis
    using run x(1) sube subin oth misc ce ci by blast
qed

lemma length_deps_string_keys:
  "string_keys m \<Longrightarrow>
   length_deps env m nv acc =
     Inr (acc @ map (\<lambda>kd. Some (snd kd))
            (filter (\<lambda>kd. fst kd = Str ''length'' \<or> numeric_ge env (fst kd) nv) m))"
proof (induction m arbitrary: acc)
  case Nil
  then show ?case by simp
next
  case (Cons kd m)
  obtain k d where kd: "kd = (k, d)" by (cases kd)
  from Cons.prems obtain str where k: "k = Str str" and m: "string_keys m"
    by (auto simp: string_keys_def kd split: key.splits)
  show ?case
    using Cons.IH [OF m]
    by (simp add: kd k key_ge_def numeric_ge_def split: option.splits)
qed

lemmas eval_simps = init_state_def new_user_effect_def new_effect_def run_def run_with_def
  enter_fn_def run_enter_def run_exit_def cleanupEffect_def upd_effect_def track_def depOf_def
  trackEffects_def createDep_def newTracked_def wasTracked_def finalizeDepMarkers_def finalizeDep_def
  maxMarkerBits_def shl1_def set_add_def set_delete_def dep_delete_def parents_def fn_value_def
  returning_def Let_def stop_with_def stop_def forget_def pauseTracking_def resetTracking_def
  enableTracking_def subscribed_def dep_of_def reads_def no_result_def
  loc_a_def loc_b_def loc_c_def

lemma graph_ok_init: "graph_ok (init_state :: 'n state)"
  by (rule graph_okI) (simp_all add: init_state_def dep_of_def createDep_def new_effect_def)

lemma graph_ok_upd_fn:
  assumes G: "graph_ok s"
  shows "graph_ok (upd_effect e (\<lambda>x. x\<lparr>fn := body\<rparr>) s)"
proof -
  have "graph_ok (upd_effect e (\<lambda>x. x\<lparr>fn := body\<rparr>) s) = graph_ok s"
    by (intro graph_ok_cong) (simp_all add: upd_effect_def)
  with G show ?thesis by simp
qed

lemma run_enter_purges:
  assumes G: "graph_ok s"
  shows "deps (effects (run_enter e s) e) = []"
    and "e \<notin> set (members (depStore (run_enter e s) d))"
  using graph_okD3 [OF G, of e d]
  by (auto simp: run_enter_def cleanupEffect_eq upd_effect_def set_delete_def)

lemma ctx_ok_init: "ctx_ok (init_state :: 'n state) []"
  by (simp add: ctx_ok_def init_state_def createDep_def shl1_def)

lemma ctx_ok_new_user_effect: "ctx_ok s es \<Longrightarrow> ctx_ok (new_user_effect body res sch rc hook s) es"
  by (rule new_user_effect_wf)

text \<open>
  The end of a run whose body has completed, normally or by an exception, with a stop
  pending: \<open>run\<close> calls \<open>stop\<close>, which is not deferred any more.
\<close>

lemma run_pending_stop:
  assumes W: "ctx_ok s es" and N: "e \<notin> set es" and B: "e < nextEffect s"
    and A: "active (effects s e)"
    and T: "exec env f (fn (effects s e)) (enter_fn e (run_enter e s)) = Some (c, s2)"
    and D: "deferStop (effects (run_exit e (shouldTrack s) s2) e)"
    and H: "onStop (effects (run_exit e (shouldTrack s) s2) e) = None
               \<or> (\<exists>hs. onStop (effects (run_exit e (shouldTrack s) s2) e) = Some (reads hs))"
  shows "\<exists>s4. run env f e s = Some (returning (fn_value e s) c, s4)
                \<and> \<not> active (effects s4 e)
                \<and> (active (effects (run_exit e (shouldTrack s) s2) e)
                     \<longrightarrow> deps (effects s4 e) = []
                         \<and> (\<forall>d\<in>set (deps (effects (run_exit e (shouldTrack s) s2) e)).
                                e \<notin> set (members (depStore s4 d)))
                         \<and> onStop_calls (effects s4 e)
                             = (if onStop (effects (run_exit e (shouldTrack s) s2) e) = None
                                then onStop_calls (effects (run_exit e (shouldTrack s) s2) e)
                                else Suc (onStop_calls (effects (run_exit e (shouldTrack s) s2) e))))
                \<and> activeEffect s4 = activeEffect s \<and> shouldTrack s4 = shouldTrack s
                \<and> effectTrackDepth s4 = effectTrackDepth s \<and> trackOpBit s4 = trackOpBit s"
proof -
  let ?s1 = "enter_fn e (run_enter e s)"
  let ?s3 = "run_exit e (shouldTrack s) s2"
  from W have "is_chain (parents s) (activeEffect s) es" by (simp add: ctx_ok_def)
  from is_chain_chain_has [OF this, of e] N
  have ch: "chain_has (parents s) (activeEffect s) e = Some False" by simp
  have w1: "ctx_ok ?s1 (e # es)" by (rule run_enter_wf [OF W N B])
  from exec_keeps [of env f] T w1 have w2: "ctx_ok s2 (e # es)" and f2: "ctx_frame ?s1 s2 (e # es)"
    by (auto simp: keeps_def)
  have a2: "activeEffect s2 = Some e" and d2: "effectTrackDepth s2 = effectTrackDepth s + 1"
    using f2 by (simp_all add: ctx_frame_def run_enter_facts)
  have pe: "parent (effects s2 e) = activeEffect s"
    using f2 run_enter_parents [of e s] by (simp add: ctx_frame_def parents_def fun_eq_iff)
  note x = run_exit_wf [OF w2 N a2, of "shouldTrack s"]
  have act: "activeEffect ?s3 = activeEffect s" using x(2) pe by simp
  have dep: "effectTrackDepth ?s3 = effectTrackDepth s" using x(3) d2 by simp
  have bit: "trackOpBit ?s3 = trackOpBit s"
    using x(1) W dep by (simp add: ctx_ok_def)
  have notme: "activeEffect ?s3 \<noteq> Some e"
    using W N act by (auto simp: ctx_ok_def dest: is_chain_head)
  have run: "run env f e s =
         (case stop env f e ?s3 of
            None \<Rightarrow> None
          | Some (Thrown, s4) \<Rightarrow> Some (Thrown, s4)
          | Some (Normal v, s4) \<Rightarrow> Some (returning (fn_value e s) c, s4))"
    using A ch T D
    by (simp add: run_def run_with_def stop_def Let_def)
  from T obtain f' where f: "f = Suc f'" by (cases f) simp_all
  show ?thesis
  proof (cases "active (effects ?s3 e)")
    case True
    from stop_idle_raw [OF True notme H, of env f'] obtain s4 where
      st: "stop env f e ?s3 = Some (Normal Undefined, s4)"
      and r: "\<forall>d. d \<in> set (deps (effects ?s3 e)) \<or> e \<notin> set (members (depStore ?s3 d))
              \<longrightarrow> e \<notin> set (members (depStore s4 d))"
        "deps (effects s4 e) = []" "\<not> active (effects s4 e)"
        "onStop_calls (effects s4 e)
           = (if onStop (effects ?s3 e) = None then onStop_calls (effects ?s3 e)
              else Suc (onStop_calls (effects ?s3 e)))"
        "activeEffect s4 = activeEffect ?s3" "shouldTrack s4 = shouldTrack ?s3"
        "effectTrackDepth s4 = effectTrackDepth ?s3" "trackOpBit s4 = trackOpBit ?s3"
      unfolding f by blast
    have "run env f e s = Some (returning (fn_value e s) c, s4)" using run st by simp
    moreover have "\<forall>d\<in>set (deps (effects ?s3 e)). e \<notin> set (members (depStore s4 d))"
      using r(1) by blast
    ultimately show ?thesis
      using r(2-8) unfolding act dep bit x(6) by blast
  next
    case False
    have "stop env f e ?s3 = Some (Normal Undefined, ?s3)"
      by (rule stop_again [OF notme False])
    then have "run env f e s = Some (returning (fn_value e s) c, ?s3)" using run by simp
    then show ?thesis using False act dep bit x(6) by blast
  qed
qed


section \<open>The claims\<close>

text \<open>
  C10. \<open>resetTracking\<close> pops the value saved last and makes it \<open>shouldTrack\<close>; on an
  empty stack it sets \<open>shouldTrack\<close> to true and changes nothing else. So a reset
  undoes the \<open>pauseTracking\<close> or \<open>enableTracking\<close> before it.
\<close>

theorem resetTracking_pops_or_enables:
  "(trackStack s = [] \<longrightarrow> resetTracking s = s\<lparr>shouldTrack := True\<rparr>)
   \<and> (\<forall>st b. trackStack s = st @ [b]
         \<longrightarrow> resetTracking s = s\<lparr>trackStack := st, shouldTrack := b\<rparr>)
   \<and> resetTracking (pauseTracking s) = s
   \<and> resetTracking (enableTracking s) = s"
  by (auto simp: resetTracking_def pauseTracking_def enableTracking_def)

theorem resetTracking_pops_or_enables_witness:
  "shouldTrack (resetTracking ((init_state :: int state)\<lparr>shouldTrack := False\<rparr>)) = True
   \<and> trackStack (resetTracking ((init_state :: int state)\<lparr>shouldTrack := False\<rparr>)) = []
   \<and> shouldTrack (resetTracking ((init_state :: int state)\<lparr>trackStack := [True, False]\<rparr>)) = False
   \<and> trackStack (resetTracking ((init_state :: int state)\<lparr>trackStack := [True, False]\<rparr>)) = [True]"
proof -
  let ?s1 = "(init_state :: int state)\<lparr>shouldTrack := False\<rparr>"
  let ?s2 = "(init_state :: int state)\<lparr>trackStack := [True, False]\<rparr>"
  have a: "resetTracking ?s1 = ?s1\<lparr>shouldTrack := True\<rparr>"
    using resetTracking_pops_or_enables [of ?s1] by (simp add: init_state_def)
  have b: "resetTracking ?s2 = ?s2\<lparr>trackStack := [True], shouldTrack := False\<rparr>"
    using resetTracking_pops_or_enables
            [of ?s2, THEN conjunct2, THEN conjunct1, rule_format, of "[True]" False]
    by simp
  show ?thesis by (simp add: a b) (simp add: init_state_def)
qed

text \<open>
  C7, as stated, at a \<open>clear\<close>: the code collects every Dependency Set of the target,
  the description (no key, and no clause for \<open>clear\<close>) names none.
\<close>

theorem trigger_clear_counterexample:
  "trigger_deps example_env [(Str ''a'', 0), (ITERATE_KEY, 1)] (MapObject, 0) CLEAR None None
     = Inr [Some 0, Some 1]
   \<and> affected_spec example_env [(Str ''a'', 0), (ITERATE_KEY, 1)] (MapObject, 0) CLEAR None None
     = {}"
  by (simp add: trigger_deps_def affected_spec_def isArray_def isMap_def)

text \<open>
  C7, amended. For a change kind other than \<open>clear\<close>, the defined entries of the list
  \<open>deps\<close> are exactly the sets of the description: for a \<open>length\<close> write on an array
  whose dependency map has string keys only, the sets of the key \<open>length\<close> and of the
  keys whose number is at least the new length; otherwise the set of the exact key, and
  the sets of the iteration keys by change kind and kind of target. For the change kind
  \<open>clear\<close>, whatever the key and the new value, the list \<open>deps\<close> holds every
  Dependency Set of the target's dependency map, in the order of the map.
\<close>

theorem trigger_deps_affected:
  assumes "ty \<noteq> CLEAR"
    and "k = Some (Str ''length'') \<and> isArray t \<longrightarrow> string_keys depsMap"
  shows "(\<exists>ds. trigger_deps env depsMap t ty k newValue = Inr ds
            \<and> {d. Some d \<in> set ds} = affected_spec env depsMap t ty k newValue)
     \<and> (\<forall>m u k' nv'. trigger_deps env m u CLEAR k' nv' = Inr (map (\<lambda>kd. Some (snd kd)) m)
            \<and> {d. Some d \<in> set (map (\<lambda>kd. Some (snd kd)) m)} = snd ` set m)"
proof
  show "\<exists>ds. trigger_deps env depsMap t ty k newValue = Inr ds
           \<and> {d. Some d \<in> set ds} = affected_spec env depsMap t ty k newValue"
  proof (cases "k = Some (Str ''length'') \<and> isArray t")
    case True
    with assms(2) have sk: "string_keys depsMap" by simp
    show ?thesis
      using True assms(1)
      by (auto simp: trigger_deps_def affected_spec_def length_deps_string_keys [OF sk] image_iff)
  next
    case False
    show ?thesis
      using False assms(1)
      by (cases ty; cases k)
         (auto simp: trigger_deps_def affected_spec_def set_at_def)
  qed
  show "\<forall>m u k' nv'. trigger_deps env m u CLEAR k' nv' = Inr (map (\<lambda>kd. Some (snd kd)) m)
            \<and> {d. Some d \<in> set (map (\<lambda>kd. Some (snd kd)) m)} = snd ` set m"
    by (auto simp: trigger_deps_def image_iff)
qed

theorem trigger_deps_affected_witness:
  "(\<exists>ds. trigger_deps example_env
            [(Str ''length'', 0), (Str ''0'', 1), (Str ''5'', 2), (Str ''foo'', 3)]
            (ArrayObject, 0) SET (Some (Str ''length'')) (Some 1) = Inr ds
         \<and> {d. Some d \<in> set ds}
           = affected_spec example_env
               [(Str ''length'', 0), (Str ''0'', 1), (Str ''5'', 2), (Str ''foo'', 3)]
               (ArrayObject, 0) SET (Some (Str ''length'')) (Some 1))
   \<and> affected_spec example_env
        [(Str ''length'', 0), (Str ''0'', 1), (Str ''5'', 2), (Str ''foo'', 3)]
        (ArrayObject, 0) SET (Some (Str ''length'')) (Some 1) = {0, 2}
   \<and> trigger_deps example_env [(Str ''a'', 4), (ITERATE_KEY, 7)] (SetObject, 1) CLEAR None None
        = Inr [Some 4, Some 7]"
proof -
  let ?m = "[(Str ''length'', 0), (Str ''0'', 1), (Str ''5'', 2), (Str ''foo'', 3)] :: (key \<times> did) list"
  have h: "SET \<noteq> CLEAR"
    "Some (Str ''length'') = Some (Str ''length'') \<and> isArray (ArrayObject, 0) \<longrightarrow> string_keys ?m"
    by (simp_all add: string_keys_def)
  note th = trigger_deps_affected [OF h, of example_env "Some 1"]
  have a: "affected_spec example_env ?m (ArrayObject, 0) SET (Some (Str ''length'')) (Some 1) = {0, 2}"
    by (auto simp: affected_spec_def isArray_def numeric_ge_def example_env_def)
  have c: "trigger_deps example_env [(Str ''a'', 4), (ITERATE_KEY, 7)] (SetObject, 1) CLEAR None None
        = Inr [Some 4, Some 7]"
    using th [THEN conjunct2, rule_format, of "[(Str ''a'', 4), (ITERATE_KEY, 7)]" "(SetObject, 1)" None None]
    by simp
  from th [THEN conjunct1] a c show ?thesis by blast
qed

text \<open>
  C1, as stated, fails in two ways the code intends. First: an effect whose body reads
  location \<open>a\<close> between \<open>pauseTracking\<close> and \<open>resetTracking\<close> (as the array methods of
  the handlers do) has run its body once, is active, and is not subscribed to \<open>a\<close>.
  Second: an effect that has been stopped runs its body, which reads \<open>a\<close>, and is not
  subscribed to \<open>a\<close> either.
\<close>

theorem run_paused_read_counterexample:
  "(case exec example_env 2
           [Effect [PauseTracking, Track (fst loc_a) (snd loc_a), ResetTracking]
              no_result False None False None]
           init_state of
      Some (Normal v, s') \<Rightarrow>
        active (effects s' 0) \<and> fn_calls (effects s' 0) = 1
        \<and> \<not> subscribed s' 0 loc_a \<and> deps (effects s' 0) = []
    | _ \<Rightarrow> False)
   \<and> (case exec example_env 2
           [Effect (reads [loc_a]) no_result True None False None, Stop 0, Run 0]
           init_state of
      Some (Normal v, s') \<Rightarrow>
        \<not> active (effects s' 0) \<and> fn_calls (effects s' 0) = 1
        \<and> \<not> subscribed s' 0 loc_a \<and> deps (effects s' 0) = []
    | _ \<Rightarrow> False)"
  by (simp add: numeral_2_eq_2 eval_simps)

text \<open>
  C1, amended. Let the effect be active, with no stop pending and not on the parent
  chain of \<open>activeEffect\<close>, in a state whose dependency graph is consistent and where no
  set carries a mark of the depth of the run, and let its body be a sequence of reads,
  each made with tracking enabled or between \<open>pauseTracking\<close> and \<open>resetTracking\<close>.
  Then \<open>cleanupEffect\<close> first empties the dependency list and takes the effect out of
  every set, \<open>run\<close> returns, and afterwards the effect is subscribed to exactly the
  locations read with tracking enabled (a location read only while tracking was paused
  is not among them): each of their sets is once in its list, it is a member of no other
  set, and the other effects are as they were.
\<close>

theorem run_subscribes_exactly_the_reads:
  assumes "graph_ok s" and "active (effects s e)" and "\<not> deferStop (effects s e)"
    and "chain_has (parents s) (activeEffect s) e = Some False"
    and "markers_clear s (effectTrackDepth s + 1)"
    and "fn (effects s e) = body_of segs"
  shows "deps (effects (run_enter e s) e) = []
     \<and> (\<forall>d. e \<notin> set (members (depStore (run_enter e s) d)))
     \<and> (\<exists>s'. run env (Suc f) e s = Some (Normal (fn_value e s), s')
           \<and> (\<forall>l. subscribed s' e l \<longleftrightarrow> l \<in> set (tracked_reads segs))
           \<and> distinct (deps (effects s' e))
           \<and> set (deps (effects s' e)) = {d. \<exists>l\<in>set (tracked_reads segs). dep_of s' l = Some d}
           \<and> (\<forall>d. e \<in> set (members (depStore s' d)) \<longleftrightarrow> d \<in> set (deps (effects s' e)))
           \<and> (\<forall>e'. e' \<noteq> e \<longrightarrow> effects s' e' = effects s e')
           \<and> graph_ok s' \<and> markers_clear s' (effectTrackDepth s + 1))"
proof -
  have st: "shouldTrack (enter_fn e (run_enter e s))" by (simp add: run_enter_eq)
  have B: "exec env (Suc f) (fn (effects s e)) (enter_fn e (run_enter e s))
             = Some (Normal Undefined, track_all (tracked_reads segs) (enter_fn e (run_enter e s)))"
    using seq_body_of [OF st, of env "exec env f" segs] by (simp add: assms(6))
  from run_tracks [OF assms(1-5) B] obtain s' where
    r: "run env (Suc f) e s = Some (Normal (fn_value e s), s')"
    and g: "graph_ok s'" and m: "markers_clear s' (effectTrackDepth s + 1)"
    and s: "\<forall>l. subscribed s' e l \<longleftrightarrow> l \<in> set (tracked_reads segs)"
    and d: "distinct (deps (effects s' e))"
    and e: "set (deps (effects s' e)) = {d. \<exists>l\<in>set (tracked_reads segs). dep_of s' l = Some d}"
    and o: "\<forall>e'. e' \<noteq> e \<longrightarrow> effects s' e' = effects s e'"
    by blast
  have "\<forall>d. e \<in> set (members (depStore s' d)) \<longleftrightarrow> d \<in> set (deps (effects s' e))"
    using graph_okD3 [OF g] by blast
  with r g m s d e o run_enter_purges [OF assms(1), of e] show ?thesis by blast
qed

theorem run_subscribes_exactly_the_reads_witness:
  "\<exists>s1 s3.
     run example_env 1 0
         (new_user_effect (body_of [(True, [loc_a, loc_c])]) no_result None False None init_state)
       = Some (Normal Undefined, s1)
     \<and> subscribed s1 0 loc_a \<and> subscribed s1 0 loc_c
     \<and> run example_env 1 0
         (upd_effect 0
            (\<lambda>x. x\<lparr>fn := body_of [(True, [loc_a]), (False, [loc_c]), (True, [loc_b, loc_a])]\<rparr>) s1)
       = Some (Normal Undefined, s3)
     \<and> subscribed s3 0 loc_a \<and> subscribed s3 0 loc_b \<and> \<not> subscribed s3 0 loc_c
     \<and> length (deps (effects s3 0)) = 2"
proof -
  let ?b0 = "[(True, [loc_a, loc_c])]"
  let ?b2 = "[(True, [loc_a]), (False, [loc_c]), (True, [loc_b, loc_a])]"
  let ?s0 = "new_user_effect (body_of ?b0) no_result None False None (init_state :: int state)"
  have g0: "graph_ok ?s0"
    by (rule graph_ok_new_user_effect [OF graph_ok_init]) (simp add: init_state_def createDep_def)
  have h0: "active (effects ?s0 0)" "\<not> deferStop (effects ?s0 0)"
    "chain_has (parents ?s0) (activeEffect ?s0) 0 = Some False"
    "markers_clear ?s0 (effectTrackDepth ?s0 + 1)"
    "fn (effects ?s0 0) = body_of ?b0"
    by (simp_all add: new_user_effect_def new_effect_def init_state_def markers_clear_def createDep_def)
  have tr0: "tracked_reads ?b0 = [loc_a, loc_c]" by (simp add: tracked_reads_def)
  have tr2: "tracked_reads ?b2 = [loc_a, loc_b, loc_a]" by (simp add: tracked_reads_def)
  from run_subscribes_exactly_the_reads [OF g0 h0, of example_env 0]
  obtain s1 where r1: "run example_env 1 0 ?s0 = Some (Normal (fn_value 0 ?s0), s1)"
    and sub1: "\<forall>l. subscribed s1 0 l \<longleftrightarrow> l \<in> set [loc_a, loc_c]"
    and g1: "graph_ok s1" and m1: "markers_clear s1 (effectTrackDepth ?s0 + 1)"
    unfolding tr0 by auto
  have B0: "fn (effects ?s0 0) = reads [loc_a, loc_c]"
    by (simp add: new_user_effect_def new_effect_def init_state_def)
  from run_reads [OF g0 h0(1-4) B0, of example_env 0] r1
  have e1: "effects s1 0 = (effects ?s0 0)\<lparr>deps := deps (effects s1 0), parent := None,
                                      fn_calls := Suc (fn_calls (effects ?s0 0))\<rparr>"
    and c1: "activeEffect s1 = activeEffect ?s0" "effectTrackDepth s1 = effectTrackDepth ?s0"
    by auto
  let ?s2 = "upd_effect 0 (\<lambda>x. x\<lparr>fn := body_of ?b2\<rparr>) s1"
  have g2: "graph_ok ?s2" by (rule graph_ok_upd_fn [OF g1])
  have "active (effects s1 0)" "\<not> deferStop (effects s1 0)"
    by (subst e1, simp add: new_user_effect_def new_effect_def init_state_def)+
  then have a2: "active (effects ?s2 0)" "\<not> deferStop (effects ?s2 0)"
    by (simp_all add: upd_effect_def)
  have h2: "chain_has (parents ?s2) (activeEffect ?s2) 0 = Some False"
    "markers_clear ?s2 (effectTrackDepth ?s2 + 1)"
    "fn (effects ?s2 0) = body_of ?b2"
    using m1 by (simp_all add: upd_effect_def c1 new_user_effect_def init_state_def markers_clear_def)
  from run_subscribes_exactly_the_reads [OF g2 a2 h2, of example_env 0]
  obtain s3 where r3: "run example_env 1 0 ?s2 = Some (Normal (fn_value 0 ?s2), s3)"
    and sub3: "\<forall>l. subscribed s3 0 l \<longleftrightarrow> l \<in> set [loc_a, loc_b, loc_a]"
    and d3: "distinct (deps (effects s3 0))"
    and e3: "set (deps (effects s3 0)) = {d. \<exists>l\<in>set [loc_a, loc_b, loc_a]. dep_of s3 l = Some d}"
    and g3: "graph_ok s3"
    unfolding tr2 by auto
  have v0: "fn_value 0 ?s0 = Undefined"
    by (simp add: fn_value_def new_user_effect_def new_effect_def init_state_def no_result_def)
  have "fn_result (effects s1 0) = no_result"
    by (subst e1) (simp add: new_user_effect_def new_effect_def init_state_def)
  then have v2: "fn_value 0 ?s2 = Undefined"
    by (simp add: fn_value_def upd_effect_def no_result_def)
  have ne: "loc_a \<noteq> loc_b" "loc_c \<noteq> loc_a" "loc_c \<noteq> loc_b"
    by (simp_all add: loc_a_def loc_b_def loc_c_def)
  have f1: "subscribed s1 0 loc_a" "subscribed s1 0 loc_c"
    using sub1 [THEN spec, of loc_a] sub1 [THEN spec, of loc_c] by simp_all
  have f3: "subscribed s3 0 loc_a" "subscribed s3 0 loc_b" "\<not> subscribed s3 0 loc_c"
    using sub3 [THEN spec, of loc_a] sub3 [THEN spec, of loc_b] sub3 [THEN spec, of loc_c] ne
    by simp_all
  from f3 obtain da db where da: "dep_of s3 loc_a = Some da" and db: "dep_of s3 loc_b = Some db"
    unfolding subscribed_iff by blast
  have "da \<noteq> db" using graph_okD2 [OF g3 da, of loc_b] db ne by auto
  moreover have "set (deps (effects s3 0)) = {da, db}" using e3 da db by auto
  ultimately have "card (set (deps (effects s3 0))) = 2" by simp
  then have len: "length (deps (effects s3 0)) = 2"
    using d3 by (simp add: distinct_card)
  from r1 v0 have r1': "run example_env 1 0 ?s0 = Some (Normal Undefined, s1)" by simp
  from r3 v2 have r3': "run example_env 1 0 ?s2 = Some (Normal Undefined, s3)" by simp
  show ?thesis
    using r1' r3' f1 f3 len by blast
qed




text \<open>
  C9, as stated: an effect is made and stopped, and its runner is then called inside the
  body of a second effect. The stopped effect runs its body, which reads \<open>a\<close>; the read
  subscribes the second effect, whose dependency list gains the set of \<open>a\<close>.
\<close>

theorem inactive_run_subscribes_outer_counterexample:
  "(case exec example_env 3
           [Effect (reads [loc_a]) no_result True None False None,
            Stop 0,
            Effect [Run 0] no_result False None False None]
           init_state of
      Some (Normal v, s') \<Rightarrow>
        \<not> active (effects s' 0) \<and> fn_calls (effects s' 0) = 1
        \<and> subscribed s' 1 loc_a \<and> deps (effects s' 1) = [0]
        \<and> members (depStore s' 0) = [1]
    | _ \<Rightarrow> False)"
  by (simp add: numeral_3_eq_3 eval_simps)

text \<open>
  C9, amended. The run of an inactive effect whose body is a sequence of reads executes
  the body once and returns its result; the effect is not installed as \<open>activeEffect\<close>,
  nothing is cleaned up, and the reads are tracked in the surrounding context. When no
  effect is active or tracking is paused, no Dependency Set and no dependency list
  changes. When an effect \<open>a\<close> is running with tracking enabled, in a consistent
  dependency graph where the marks of the current depth are on exactly the sets of the
  list of \<open>a\<close> (\<open>tracking\<close>), the reads subscribe \<open>a\<close>: afterwards \<open>a\<close> is
  subscribed to what it was subscribed to and to the locations read, and the
  subscriptions of every other effect are as they were.
\<close>

theorem inactive_run_tracks_in_surrounding_context:
  assumes "\<not> active (effects s e)" and "fn (effects s e) = reads ls"
  shows "run env (Suc f) e s = Some (Normal (fn_value e s), track_all ls (enter_fn e s))
     \<and> fn_calls (effects (enter_fn e s) e) = Suc (fn_calls (effects s e))
     \<and> activeEffect (enter_fn e s) = activeEffect s
     \<and> depStore (enter_fn e s) = depStore s \<and> targetMap (enter_fn e s) = targetMap s
     \<and> (\<forall>x. deps (effects (enter_fn e s) x) = deps (effects s x))
     \<and> (activeEffect s = None \<or> \<not> shouldTrack s
          \<longrightarrow> track_all ls (enter_fn e s) = enter_fn e s)
     \<and> (\<forall>a. graph_ok s \<and> tracking s a
          \<longrightarrow> (\<forall>l. subscribed (track_all ls (enter_fn e s)) a l
                       \<longleftrightarrow> subscribed s a l \<or> l \<in> set ls)
              \<and> (\<forall>x l. x \<noteq> a \<longrightarrow> subscribed (track_all ls (enter_fn e s)) x l
                                     \<longleftrightarrow> subscribed s x l))"
proof -
  let ?s1 = "enter_fn e s"
  have run: "run env (Suc f) e s = Some (Normal (fn_value e s), track_all ls ?s1)"
    using assms by (simp add: run_def run_with_def seq_reads returning_def)
  have fr: "fn_calls (effects ?s1 e) = Suc (fn_calls (effects s e))"
    "activeEffect ?s1 = activeEffect s" "depStore ?s1 = depStore s" "targetMap ?s1 = targetMap s"
    "\<And>x. deps (effects ?s1 x) = deps (effects s x)"
    "shouldTrack ?s1 = shouldTrack s" "trackOpBit ?s1 = trackOpBit s"
    "effectTrackDepth ?s1 = effectTrackDepth s" "nextDep ?s1 = nextDep s"
    by (simp_all add: enter_fn_def upd_effect_def)
  have idle: "track_all ls ?s1 = ?s1" if "activeEffect s = None \<or> \<not> shouldTrack s"
    by (rule track_all_idle) (use that in \<open>simp add: fr\<close>)
  have attr: "(\<forall>l. subscribed (track_all ls ?s1) a l \<longleftrightarrow> subscribed s a l \<or> l \<in> set ls)
              \<and> (\<forall>x l. x \<noteq> a \<longrightarrow> subscribed (track_all ls ?s1) x l \<longleftrightarrow> subscribed s x l)"
    if "graph_ok s \<and> tracking s a" for a
  proof -
    have g1: "graph_ok ?s1"
      using that graph_ok_cong [of ?s1 s] by (simp add: fr)
    have t1: "tracking ?s1 a"
      using that tracking_cong [of ?s1 s a] by (simp add: fr)
    have sc: "\<And>x l. subscribed ?s1 x l = subscribed s x l"
      by (rule subscribed_cong) (simp_all add: fr)
    from track_all_subscribed [OF g1 t1, where ls = ls] show ?thesis by (simp add: sc)
  qed
  from run fr idle attr show ?thesis by blast
qed

theorem inactive_run_tracks_in_surrounding_context_witness:
  "run example_env 1 0
      (upd_effect 0 (\<lambda>x. x\<lparr>active := False\<rparr>)
         (new_user_effect (reads [loc_a]) no_result None False None init_state))
    = Some (Normal Undefined,
        enter_fn 0 (upd_effect 0 (\<lambda>x. x\<lparr>active := False\<rparr>)
          (new_user_effect (reads [loc_a]) no_result None False None init_state)))
   \<and> targetMap (enter_fn 0 (upd_effect 0 (\<lambda>x. x\<lparr>active := False\<rparr>)
          (new_user_effect (reads [loc_a]) no_result None False None (init_state :: int state))))
         (fst loc_a) = None
   \<and> (\<exists>s'. run example_env 1 0
               (enter_fn 1 (run_enter 1
                  (upd_effect 0 (\<lambda>x. x\<lparr>active := False\<rparr>)
                     (new_user_effect [] no_result None False None
                        (new_user_effect (reads [loc_a]) no_result None False None init_state)))))
              = Some (Normal Undefined, s')
          \<and> activeEffect s' = Some 1 \<and> subscribed s' 1 loc_a \<and> \<not> subscribed s' 0 loc_a)"
proof -
  let ?s = "upd_effect 0 (\<lambda>x. x\<lparr>active := False\<rparr>)
         (new_user_effect (reads [loc_a]) no_result None False None (init_state :: int state))"
  have h: "\<not> active (effects ?s 0)" "fn (effects ?s 0) = reads [loc_a]"
    by (simp_all add: upd_effect_def new_user_effect_def new_effect_def init_state_def)
  have n: "activeEffect ?s = None"
    by (simp add: upd_effect_def new_user_effect_def init_state_def)
  have v: "fn_value 0 ?s = Undefined"
    by (simp add: fn_value_def upd_effect_def new_user_effect_def new_effect_def no_result_def
        init_state_def)
  from inactive_run_tracks_in_surrounding_context [OF h, of example_env 0] n v
  have idle: "run example_env 1 0 ?s = Some (Normal Undefined, enter_fn 0 ?s)
        \<and> targetMap (enter_fn 0 ?s) (fst loc_a) = None"
    by (simp add: enter_fn_def upd_effect_def new_user_effect_def init_state_def)
  let ?ua = "new_user_effect (reads [loc_a]) no_result None False None (init_state :: int state)"
  let ?ub = "new_user_effect [] no_result None False None ?ua"
  let ?u = "upd_effect 0 (\<lambda>x. x\<lparr>active := False\<rparr>) ?ub"
  let ?t = "enter_fn 1 (run_enter 1 ?u)"
  have g0: "graph_ok ?ua"
    by (rule graph_ok_new_user_effect [OF graph_ok_init]) (simp add: init_state_def createDep_def)
  have g1: "graph_ok ?ub"
    by (rule graph_ok_new_user_effect [OF g0])
       (simp add: new_user_effect_def init_state_def createDep_def)
  have "graph_ok ?u = graph_ok ?ub"
    by (intro graph_ok_cong) (simp_all add: upd_effect_def)
  with g1 have gu: "graph_ok ?u" by simp
  have mu: "markers_clear ?u (effectTrackDepth ?u + 1)"
    by (simp add: markers_clear_def upd_effect_def new_user_effect_def init_state_def createDep_def)
  note gt = run_enter_graph [OF gu mu, of 1]
  have ht: "\<not> active (effects ?t 0)" "fn (effects ?t 0) = reads [loc_a]"
    by (simp_all add: run_enter_eq upd_effect_def new_user_effect_def new_effect_def init_state_def)
  have vt: "fn_value 0 ?t = Undefined"
    by (simp add: fn_value_def run_enter_eq upd_effect_def new_user_effect_def new_effect_def
        no_result_def init_state_def)
  have st: "\<not> subscribed ?t 0 loc_a"
    by (simp add: subscribed_def dep_of_def run_enter_facts upd_effect_def new_user_effect_def
        init_state_def)
  let ?s' = "track_all [loc_a] (enter_fn 0 ?t)"
  note th = inactive_run_tracks_in_surrounding_context [OF ht, of example_env 0]
  have r: "run example_env 1 0 ?t = Some (Normal Undefined, ?s')"
    using th [THEN conjunct1] unfolding vt by simp
  from th gt have sub: "\<forall>l. subscribed ?s' 1 l \<longleftrightarrow> subscribed ?t 1 l \<or> l \<in> set [loc_a]"
    and oth: "\<forall>x l. x \<noteq> 1 \<longrightarrow> subscribed ?s' x l \<longleftrightarrow> subscribed ?t x l"
    by blast+
  from sub [THEN spec, of loc_a] have s1: "subscribed ?s' 1 loc_a" by simp
  from oth [THEN spec, of 0, THEN spec, of loc_a] st have s0: "\<not> subscribed ?s' 0 loc_a" by simp
  have "activeEffect (enter_fn 0 ?t) = Some 1"
    using gt(2) by (simp add: tracking_def enter_fn_def upd_effect_def)
  then have a': "activeEffect ?s' = Some 1"
    using track_all_other [of "enter_fn 0 ?t" 0 "[loc_a]"] by simp
  from idle r s1 s0 a' show ?thesis by blast
qed

text \<open>
  C8, as stated, for an \<open>onStop\<close> hook that throws: \<open>stop\<close> has cleaned up and
  invoked the hook when the exception leaves it, before \<open>active\<close> is cleared. The
  effect is still active, and a second \<open>stop\<close> invokes the hook a second time.
\<close>

theorem stop_hook_throws_counterexample:
  "(case exec example_env 2
           [Effect (reads [loc_a]) no_result False None False (Some [Throw]), Stop 0]
           init_state of
      Some (Thrown, s') \<Rightarrow>
        active (effects s' 0) \<and> onStop_calls (effects s' 0) = 1
        \<and> (case stop example_env 1 0 s' of
              Some (Thrown, s'') \<Rightarrow> active (effects s'' 0) \<and> onStop_calls (effects s'' 0) = 2
            | _ \<Rightarrow> False)
    | _ \<Rightarrow> False)"
  by (simp add: numeral_2_eq_2 eval_simps)

text \<open>
  C8, amended. Let effect \<open>e\<close> be active and not running (it is not among the running
  effects \<open>es\<close> of a well-formed context), in a state whose dependency graph is
  consistent, and let its \<open>onStop\<close> hook, when it has one, be a closure that only
  reads. Then \<open>stop\<close> returns; afterwards the effect is a member of no Dependency Set,
  its dependency list is empty, the hook has been invoked once, and \<open>active\<close> is false.
  A second \<open>stop\<close> returns the same state, and no later execution of any code makes
  the effect active again. A \<open>stop\<close> of the effect that is \<open>activeEffect\<close> only sets
  \<open>deferStop\<close>, in every state. When the body of the run of \<open>e\<close> has completed,
  normally or by an exception, and the stop is pending, \<open>run\<close> calls \<open>stop\<close> and
  the effect is inactive afterwards; if it was still active, its list is empty, it is in
  none of the sets of that list and the hook has been invoked once. In particular, when
  the body reads and then calls \<open>stop\<close> on its own effect (no set carrying a mark of
  the run's depth), then at the end of the body the effect is still active and
  subscribed to what it read, the hook has not been invoked and the stop is pending;
  when \<open>run\<close> has completed, the effect is a member of no set, its list is empty, the
  hook has been invoked once and \<open>active\<close> is false.
\<close>

theorem stop_unsubscribes_and_deactivates:
  assumes G: "graph_ok s" and W: "ctx_ok s es" and N: "e \<notin> set es" and B: "e < nextEffect s"
    and A: "active (effects s e)"
    and H: "onStop (effects s e) = None \<or> (\<exists>hs. onStop (effects s e) = Some (reads hs))"
  shows "(\<exists>s'. stop env (Suc f) e s = Some (Normal Undefined, s')
           \<and> (\<forall>d. e \<notin> set (members (depStore s' d)))
           \<and> deps (effects s' e) = []
           \<and> \<not> active (effects s' e)
           \<and> onStop_calls (effects s' e)
               = (if onStop (effects s e) = None then onStop_calls (effects s e)
                  else Suc (onStop_calls (effects s e)))
           \<and> (\<forall>g. stop env g e s' = Some (Normal Undefined, s'))
           \<and> (\<forall>g cmds r s''. exec env g cmds s' = Some (r, s'') \<longrightarrow> \<not> active (effects s'' e)))
     \<and> (\<forall>ls. fn (effects s e) = reads ls @ [Stop e] \<and> markers_clear s (effectTrackDepth s + 1)
           \<longrightarrow> (\<exists>s2 s4. exec env (Suc f) (fn (effects s e)) (enter_fn e (run_enter e s))
                            = Some (Normal Undefined, s2)
                   \<and> deferStop (effects s2 e) \<and> active (effects s2 e)
                   \<and> onStop_calls (effects s2 e) = onStop_calls (effects s e)
                   \<and> (\<forall>l\<in>set ls. subscribed s2 e l)
                   \<and> run env (Suc f) e s = Some (Normal (fn_value e s), s4)
                   \<and> (\<forall>d. e \<notin> set (members (depStore s4 d)))
                   \<and> deps (effects s4 e) = []
                   \<and> \<not> active (effects s4 e)
                   \<and> onStop_calls (effects s4 e)
                       = (if onStop (effects s e) = None then onStop_calls (effects s e)
                          else Suc (onStop_calls (effects s e)))))
     \<and> (\<forall>u g. activeEffect u = Some e
           \<longrightarrow> stop env g e u = Some (Normal Undefined, upd_effect e (\<lambda>x. x\<lparr>deferStop := True\<rparr>) u))
     \<and> (\<forall>c s2. exec env (Suc f) (fn (effects s e)) (enter_fn e (run_enter e s)) = Some (c, s2)
              \<and> deferStop (effects (run_exit e (shouldTrack s) s2) e)
              \<and> (onStop (effects (run_exit e (shouldTrack s) s2) e) = None
                   \<or> (\<exists>hs. onStop (effects (run_exit e (shouldTrack s) s2) e) = Some (reads hs)))
           \<longrightarrow> (\<exists>s4. run env (Suc f) e s = Some (returning (fn_value e s) c, s4)
                   \<and> \<not> active (effects s4 e)
                   \<and> (active (effects (run_exit e (shouldTrack s) s2) e)
                        \<longrightarrow> deps (effects s4 e) = []
                            \<and> (\<forall>d\<in>set (deps (effects (run_exit e (shouldTrack s) s2) e)).
                                   e \<notin> set (members (depStore s4 d)))
                            \<and> onStop_calls (effects s4 e)
                                = (if onStop (effects (run_exit e (shouldTrack s) s2) e) = None
                                   then onStop_calls (effects (run_exit e (shouldTrack s) s2) e)
                                   else Suc (onStop_calls
                                               (effects (run_exit e (shouldTrack s) s2) e))))))"
proof -
  from W have ch: "is_chain (parents s) (activeEffect s) es" by (simp add: ctx_ok_def)
  from is_chain_chain_has [OF ch, of e] N
  have C: "chain_has (parents s) (activeEffect s) e = Some False" by simp
  then have NA: "activeEffect s \<noteq> Some e" by auto
  from stop_idle [OF G A NA H, of env f] obtain s' where
    st: "stop env (Suc f) e s = Some (Normal Undefined, s')"
    and r: "\<forall>d. e \<notin> set (members (depStore s' d))" "deps (effects s' e) = []"
      "\<not> active (effects s' e)"
      "onStop_calls (effects s' e)
         = (if onStop (effects s e) = None then onStop_calls (effects s e)
            else Suc (onStop_calls (effects s e)))"
    and a': "activeEffect s' = activeEffect s" and n': "nextEffect s' = nextEffect s"
    by blast
  have again: "\<forall>g. stop env g e s' = Some (Normal Undefined, s')"
    using stop_again [of s' e env] NA r(3) by (simp add: a')
  from st have "stop_with (exec env (Suc f)) e s = Some (Normal Undefined, s')"
    by (simp add: stop_def)
  from stop_with_keeps [OF exec_keeps this W] have W': "ctx_ok s' es" by simp
  have perm: "\<not> active (effects s'' e)" if "exec env g cmds s' = Some (r, s'')" for g cmds r s''
  proof -
    from exec_keeps [of env g] that W' have "ctx_frame s' s'' es" by (auto simp: keeps_def)
    then show ?thesis using r(3) B by (simp add: ctx_frame_def n')
  qed
  have first: "\<exists>s'. stop env (Suc f) e s = Some (Normal Undefined, s')
           \<and> (\<forall>d. e \<notin> set (members (depStore s' d)))
           \<and> deps (effects s' e) = []
           \<and> \<not> active (effects s' e)
           \<and> onStop_calls (effects s' e)
               = (if onStop (effects s e) = None then onStop_calls (effects s e)
                  else Suc (onStop_calls (effects s e)))
           \<and> (\<forall>g. stop env g e s' = Some (Normal Undefined, s'))
           \<and> (\<forall>g cmds r s''. exec env g cmds s' = Some (r, s'') \<longrightarrow> \<not> active (effects s'' e))"
    using st r again perm by blast
  have second: "\<exists>s2 s4. exec env (Suc f) (fn (effects s e)) (enter_fn e (run_enter e s))
                            = Some (Normal Undefined, s2)
                   \<and> deferStop (effects s2 e) \<and> active (effects s2 e)
                   \<and> onStop_calls (effects s2 e) = onStop_calls (effects s e)
                   \<and> (\<forall>l\<in>set ls. subscribed s2 e l)
                   \<and> run env (Suc f) e s = Some (Normal (fn_value e s), s4)
                   \<and> (\<forall>d. e \<notin> set (members (depStore s4 d)))
                   \<and> deps (effects s4 e) = []
                   \<and> \<not> active (effects s4 e)
                   \<and> onStop_calls (effects s4 e)
                       = (if onStop (effects s e) = None then onStop_calls (effects s e)
                          else Suc (onStop_calls (effects s e)))"
    if "fn (effects s e) = reads ls @ [Stop e] \<and> markers_clear s (effectTrackDepth s + 1)" for ls
  proof -
    from that have b: "fn (effects s e) = reads ls @ [Stop e]"
      and m: "markers_clear s (effectTrackDepth s + 1)" by simp_all
    from b have b': "fn (effects s e) = reads ls @ [Stop e] @ []" by simp
    have rs: "([] :: 'a cmd list) = [] \<or> ([] :: 'a cmd list) = [Throw]" by simp
    from run_reads_then_stop [OF G A C m b' rs B H, of env f] show ?thesis by auto
  qed
  have third: "\<forall>u g. activeEffect u = Some e
           \<longrightarrow> stop env g e u = Some (Normal Undefined, upd_effect e (\<lambda>x. x\<lparr>deferStop := True\<rparr>) u)"
    by (simp add: stop_running)
  have fourth: "\<exists>s4. run env (Suc f) e s = Some (returning (fn_value e s) c, s4)
                   \<and> \<not> active (effects s4 e)
                   \<and> (active (effects (run_exit e (shouldTrack s) s2) e)
                        \<longrightarrow> deps (effects s4 e) = []
                            \<and> (\<forall>d\<in>set (deps (effects (run_exit e (shouldTrack s) s2) e)).
                                   e \<notin> set (members (depStore s4 d)))
                            \<and> onStop_calls (effects s4 e)
                                = (if onStop (effects (run_exit e (shouldTrack s) s2) e) = None
                                   then onStop_calls (effects (run_exit e (shouldTrack s) s2) e)
                                   else Suc (onStop_calls
                                               (effects (run_exit e (shouldTrack s) s2) e))))"
    if h: "exec env (Suc f) (fn (effects s e)) (enter_fn e (run_enter e s)) = Some (c, s2)
              \<and> deferStop (effects (run_exit e (shouldTrack s) s2) e)
              \<and> (onStop (effects (run_exit e (shouldTrack s) s2) e) = None
                   \<or> (\<exists>hs. onStop (effects (run_exit e (shouldTrack s) s2) e) = Some (reads hs)))"
    for c s2
  proof -
    from h have t: "exec env (Suc f) (fn (effects s e)) (enter_fn e (run_enter e s)) = Some (c, s2)"
      and d: "deferStop (effects (run_exit e (shouldTrack s) s2) e)"
      and k: "onStop (effects (run_exit e (shouldTrack s) s2) e) = None
                   \<or> (\<exists>hs. onStop (effects (run_exit e (shouldTrack s) s2) e) = Some (reads hs))"
      by blast+
    from run_pending_stop [OF W N B A t d k] show ?thesis by blast
  qed
  from first second third fourth show ?thesis by blast
qed

theorem stop_unsubscribes_and_deactivates_witness:
  "\<exists>s1 s' s'' s4.
     run example_env 1 0
         (new_user_effect (reads [loc_a]) no_result None False (Some (reads [loc_b])) init_state)
       = Some (Normal Undefined, s1)
     \<and> subscribed s1 0 loc_a \<and> active (effects s1 0)
     \<and> stop example_env 1 0 s1 = Some (Normal Undefined, s')
     \<and> \<not> subscribed s' 0 loc_a \<and> deps (effects s' 0) = [] \<and> \<not> active (effects s' 0)
     \<and> onStop_calls (effects s' 0) = 1
     \<and> stop example_env 1 0 s' = Some (Normal Undefined, s')
     \<and> exec example_env 2 [Run 0] s' = Some (Normal Undefined, s'')
     \<and> \<not> active (effects s'' 0)
     \<and> run example_env 1 0
         (new_user_effect (reads [loc_a] @ [Stop 0]) no_result None False (Some (reads [loc_b]))
            init_state)
       = Some (Normal Undefined, s4)
     \<and> \<not> subscribed s4 0 loc_a \<and> deps (effects s4 0) = [] \<and> \<not> active (effects s4 0)
     \<and> onStop_calls (effects s4 0) = 1
     \<and> stop example_env 1 0
           (enter_fn 0 (run_enter 0
              (new_user_effect (reads [loc_a] @ [Stop 0]) no_result None False
                 (Some (reads [loc_b])) init_state)))
         = Some (Normal Undefined,
             upd_effect 0 (\<lambda>x. x\<lparr>deferStop := True\<rparr>)
               (enter_fn 0 (run_enter 0
                  (new_user_effect (reads [loc_a] @ [Stop 0]) no_result None False
                     (Some (reads [loc_b])) init_state))))
     \<and> (\<exists>s5. run example_env 1 0
                 (new_user_effect (reads [loc_a] @ [Stop 0]) no_result None False
                    (Some (reads [loc_b])) init_state)
               = Some (Normal Undefined, s5)
             \<and> \<not> active (effects s5 0) \<and> deps (effects s5 0) = [])"
proof -
  let ?s0 = "new_user_effect (reads [loc_a]) no_result None False (Some (reads [loc_b]))
               (init_state :: int state)"
  let ?t0 = "new_user_effect (reads [loc_a] @ [Stop 0]) no_result None False
               (Some (reads [loc_b])) (init_state :: int state)"
  have g0: "graph_ok ?s0"
    by (rule graph_ok_new_user_effect [OF graph_ok_init]) (simp add: init_state_def createDep_def)
  have w0: "ctx_ok ?s0 []" by (rule ctx_ok_new_user_effect [OF ctx_ok_init])
  have h0: "active (effects ?s0 0)" "\<not> deferStop (effects ?s0 0)"
    "chain_has (parents ?s0) (activeEffect ?s0) 0 = Some False"
    "markers_clear ?s0 (effectTrackDepth ?s0 + 1)"
    "fn (effects ?s0 0) = reads [loc_a]"
    by (simp_all add: new_user_effect_def new_effect_def init_state_def markers_clear_def createDep_def)
  have ni: "0 \<notin> set ([] :: eid list)" by simp
  have b0: "0 < nextEffect ?s0" by (simp add: new_user_effect_def init_state_def)
  from run_reads [OF g0 h0, of example_env 0]
  obtain s1 where r1: "run example_env 1 0 ?s0 = Some (Normal (fn_value 0 ?s0), s1)"
    and g1: "graph_ok s1"
    and sub1: "\<forall>l. subscribed s1 0 l \<longleftrightarrow> l \<in> set [loc_a]"
    and e1: "effects s1 0 = (effects ?s0 0)\<lparr>deps := deps (effects s1 0), parent := None,
                                      fn_calls := Suc (fn_calls (effects ?s0 0))\<rparr>"
    and n1: "nextEffect s1 = nextEffect ?s0"
    by auto
  have v0: "fn_value 0 ?s0 = Undefined"
    by (simp add: fn_value_def new_user_effect_def new_effect_def init_state_def no_result_def)
  from r1 have "run_with (exec example_env 1) 0 ?s0 = Some (Normal (fn_value 0 ?s0), s1)"
    by (simp only: run_def One_nat_def)
  from run_with_keeps [OF exec_keeps this w0 b0] have w1: "ctx_ok s1 []" by simp
  have a1: "active (effects s1 0)" "onStop (effects s1 0) = Some (reads [loc_b])"
    "onStop_calls (effects s1 0) = 0" "fn (effects s1 0) = reads [loc_a]"
    by (subst e1, simp add: new_user_effect_def new_effect_def init_state_def)+
  have hk1: "onStop (effects s1 0) = None \<or> (\<exists>hs. onStop (effects s1 0) = Some (reads hs))"
    using a1(2) by blast
  have b1: "0 < nextEffect s1" using n1 b0 by simp
  note th1 = stop_unsubscribes_and_deactivates [OF g1 w1 ni b1 a1(1) hk1, of example_env 0,
      THEN conjunct1]
  from th1 obtain s' where st: "stop example_env 1 0 s1 = Some (Normal Undefined, s')"
    and m': "\<forall>d. 0 \<notin> set (members (depStore s' d))" and d': "deps (effects s' 0) = []"
    and i': "\<not> active (effects s' 0)"
    and c': "onStop_calls (effects s' 0) = 1"
    and again: "\<forall>g. stop example_env g 0 s' = Some (Normal Undefined, s')"
    and perm: "\<forall>g cmds r s''. exec example_env g cmds s' = Some (r, s'') \<longrightarrow> \<not> active (effects s'' 0)"
    using a1(2,3) by auto
  have NA1: "activeEffect s1 \<noteq> Some 0"
    using w1 by (auto simp: ctx_ok_def)
  from stop_idle [OF g1 a1(1) NA1 hk1, of example_env 0] st
  have n': "nextEffect s' = nextEffect s1" and f': "fn (effects s' 0) = fn (effects s1 0)"
    by auto
  let ?s'' = "track_all [loc_a] (enter_fn 0 s')"
  have x: "exec example_env 2 [Run 0] s' = Some (Normal Undefined, ?s'')"
    using i' b1 n' f' a1(4)
    by (simp add: numeral_2_eq_2 run_with_def forget_def returning_def seq_reads)
  from perm x have i'': "\<not> active (effects ?s'' 0)" by blast
  have ns': "\<not> subscribed s' 0 loc_a" using m' by (simp add: subscribed_iff)
  have g2: "graph_ok ?t0"
    by (rule graph_ok_new_user_effect [OF graph_ok_init]) (simp add: init_state_def createDep_def)
  have w2: "ctx_ok ?t0 []" by (rule ctx_ok_new_user_effect [OF ctx_ok_init])
  have "onStop (effects ?t0 0) = Some (reads [loc_b])"
    by (simp add: new_user_effect_def new_effect_def init_state_def)
  then have hk2: "onStop (effects ?t0 0) = None \<or> (\<exists>hs. onStop (effects ?t0 0) = Some (reads hs))"
    by blast
  have h2: "0 < nextEffect ?t0" "active (effects ?t0 0)"
    by (simp_all add: new_user_effect_def new_effect_def init_state_def)
  have k2: "fn (effects ?t0 0) = reads [loc_a] @ [Stop 0]
            \<and> markers_clear ?t0 (effectTrackDepth ?t0 + 1)"
    by (simp add: new_user_effect_def new_effect_def init_state_def markers_clear_def createDep_def)
  have v2: "fn_value 0 ?t0 = Undefined" "onStop (effects ?t0 0) \<noteq> None"
    "onStop_calls (effects ?t0 0) = 0"
    by (simp_all add: fn_value_def new_user_effect_def new_effect_def init_state_def no_result_def)
  note th2 = stop_unsubscribes_and_deactivates [OF g2 w2 ni h2 hk2, of example_env 0,
      THEN conjunct2, THEN conjunct1, rule_format, OF k2]
  from th2 obtain s4 where r4: "run example_env 1 0 ?t0 = Some (Normal Undefined, s4)"
    and m4: "\<forall>d. 0 \<notin> set (members (depStore s4 d))" and d4: "deps (effects s4 0) = []"
    and i4: "\<not> active (effects s4 0)" and c4: "onStop_calls (effects s4 0) = 1"
    using v2 by auto
  have ns4: "\<not> subscribed s4 0 loc_a" using m4 by (simp add: subscribed_iff)
  have s1a: "subscribed s1 0 loc_a" using sub1 [THEN spec, of loc_a] by simp
  from r1 v0 have r1': "run example_env 1 0 ?s0 = Some (Normal Undefined, s1)" by simp
  from again have again1: "stop example_env 1 0 s' = Some (Normal Undefined, s')" by blast
  note th0 = stop_unsubscribes_and_deactivates [OF g2 w2 ni h2 hk2, of example_env 0]
  let ?u = "enter_fn 0 (run_enter 0 ?t0)"
  have au: "activeEffect ?u = Some 0" by (simp add: run_enter_eq)
  from th0 [THEN conjunct2, THEN conjunct2, THEN conjunct1, rule_format, of ?u 1] au
  have def: "stop example_env 1 0 ?u
               = Some (Normal Undefined, upd_effect 0 (\<lambda>x. x\<lparr>deferStop := True\<rparr>) ?u)"
    by simp
  let ?u2 = "upd_effect 0 (\<lambda>x. x\<lparr>deferStop := True\<rparr>) (track (fst loc_a) (snd loc_a) ?u)"
  have k4: "exec example_env (Suc 0) (fn (effects ?t0 0)) ?u = Some (Normal Undefined, ?u2)
              \<and> deferStop (effects (run_exit 0 (shouldTrack ?t0) ?u2) 0)
              \<and> (onStop (effects (run_exit 0 (shouldTrack ?t0) ?u2) 0) = None
                   \<or> (\<exists>hs. onStop (effects (run_exit 0 (shouldTrack ?t0) ?u2) 0) = Some (reads hs)))"
  proof (intro conjI)
    show "exec example_env (Suc 0) (fn (effects ?t0 0)) ?u = Some (Normal Undefined, ?u2)"
      by (simp add: eval_simps)
    show "deferStop (effects (run_exit 0 (shouldTrack ?t0) ?u2) 0)"
      by (simp add: eval_simps)
    have "onStop (effects (run_exit 0 (shouldTrack ?t0) ?u2) 0) = Some (reads [loc_b])"
      by (simp add: eval_simps)
    then show "onStop (effects (run_exit 0 (shouldTrack ?t0) ?u2) 0) = None
                   \<or> (\<exists>hs. onStop (effects (run_exit 0 (shouldTrack ?t0) ?u2) 0) = Some (reads hs))"
      by blast
  qed
  from th0 [THEN conjunct2, THEN conjunct2, THEN conjunct2, rule_format, OF k4]
  obtain s5 where "run example_env (Suc 0) 0 ?t0 = Some (returning (fn_value 0 ?t0) (Normal Undefined), s5)"
    and "\<not> active (effects s5 0)"
    and "active (effects (run_exit 0 (shouldTrack ?t0) ?u2) 0) \<longrightarrow> deps (effects s5 0) = []"
    by blast
  moreover have "active (effects (run_exit 0 (shouldTrack ?t0) ?u2) 0)"
    by (simp add: eval_simps)
  ultimately have fin: "\<exists>s5. run example_env 1 0 ?t0 = Some (Normal Undefined, s5)
             \<and> \<not> active (effects s5 0) \<and> deps (effects s5 0) = []"
    using v2 by (auto simp: returning_def)
  show ?thesis
    using r1' s1a a1(1) st ns' d' i' c' again1 x i'' r4 ns4 d4 i4 c4 def fin by blast
qed









text \<open>
  C3, as stated, for a read the inner effect makes between \<open>pauseTracking\<close> and
  \<open>resetTracking\<close>: the outer effect reads \<open>a\<close>, the inner effect reads \<open>b\<close> while
  tracking is paused, the outer effect reads \<open>c\<close>. The inner effect has run and is not
  subscribed to \<open>b\<close>; no Dependency Set exists for \<open>b\<close>.
\<close>

theorem nested_paused_read_counterexample:
  "(case exec example_env 3
           [Effect [Track (fst loc_a) (snd loc_a),
                    Effect [PauseTracking, Track (fst loc_b) (snd loc_b), ResetTracking]
                      no_result False None False None,
                    Track (fst loc_c) (snd loc_c)]
              no_result False None False None]
           init_state of
      Some (Normal v, s') \<Rightarrow>
        fn_calls (effects s' 0) = 1 \<and> fn_calls (effects s' 1) = 1
        \<and> subscribed s' 0 loc_a \<and> subscribed s' 0 loc_c
        \<and> \<not> subscribed s' 1 loc_b \<and> \<not> subscribed s' 0 loc_b \<and> dep_of s' loc_b = None
    | _ \<Rightarrow> False)"
  by (simp add: eval_nat_numeral eval_simps)

text \<open>
  C3, amended. Let an active effect \<open>e\<close> with no stop pending, not among the running
  effects \<open>es\<close> of a well-formed context, be run in a consistent graph where no set
  carries a mark of the next two depths; let its body read (segments \<open>so1\<close>), create
  an effect whose body reads (segments \<open>si\<close>), and read again (segments \<open>so2\<close>), each
  read made with tracking enabled or between \<open>pauseTracking\<close> and \<open>resetTracking\<close>.
  Then \<open>run\<close> returns; the outer effect is subscribed to exactly the locations its
  own body read with tracking enabled, before or after the inner run; the inner effect,
  which has run once, is subscribed to exactly the locations its body read with tracking
  enabled; every other effect is as it was, and \<open>activeEffect\<close> is again what it was
  before the run. In every state, entering a run saves \<open>activeEffect\<close> as the parent of
  the effect and installs the effect as \<open>activeEffect\<close>, and leaving it restores the
  saved parent as \<open>activeEffect\<close>.
\<close>

theorem nested_effects_attribute_reads:
  assumes G: "graph_ok s" and W: "ctx_ok s es" and N: "e \<notin> set es" and E: "e < nextEffect s"
    and A: "active (effects s e)" and DS: "\<not> deferStop (effects s e)"
    and MC1: "markers_clear s (effectTrackDepth s + 1)"
    and MC2: "markers_clear s (effectTrackDepth s + 2)"
    and B: "fn (effects s e)
              = body_of so1 @ [Effect (body_of si) res False None False None] @ body_of so2"
  shows "(\<exists>s'. run (env :: ('a :: linorder) env) (Suc (Suc f)) e s = Some (Normal (fn_value e s), s')
           \<and> (\<forall>l. subscribed s' e l \<longleftrightarrow> l \<in> set (tracked_reads so1) \<union> set (tracked_reads so2))
           \<and> (\<forall>l. subscribed s' (nextEffect s) l \<longleftrightarrow> l \<in> set (tracked_reads si))
           \<and> (\<forall>x. x \<noteq> e \<and> x \<noteq> nextEffect s \<longrightarrow> effects s' x = effects s x)
           \<and> activeEffect s' = activeEffect s \<and> shouldTrack s' = shouldTrack s
           \<and> effectTrackDepth s' = effectTrackDepth s
           \<and> fn_calls (effects s' e) = Suc (fn_calls (effects s e))
           \<and> fn_calls (effects s' (nextEffect s)) = 1
           \<and> parent (effects s' e) = None \<and> parent (effects s' (nextEffect s)) = None
           \<and> graph_ok s')
     \<and> (\<forall>u x. parent (effects (run_enter x (u :: 'a state)) x) = activeEffect u
              \<and> activeEffect (run_enter x u) = Some x)
     \<and> (\<forall>u x b. activeEffect (run_exit x b (u :: 'a state)) = parent (effects u x))"
proof -
  from nested_run [OF assms, of env f] have first:
    "\<exists>s'. run env (Suc (Suc f)) e s = Some (Normal (fn_value e s), s')
           \<and> (\<forall>l. subscribed s' e l \<longleftrightarrow> l \<in> set (tracked_reads so1) \<union> set (tracked_reads so2))
           \<and> (\<forall>l. subscribed s' (nextEffect s) l \<longleftrightarrow> l \<in> set (tracked_reads si))
           \<and> (\<forall>x. x \<noteq> e \<and> x \<noteq> nextEffect s \<longrightarrow> effects s' x = effects s x)
           \<and> activeEffect s' = activeEffect s \<and> shouldTrack s' = shouldTrack s
           \<and> effectTrackDepth s' = effectTrackDepth s
           \<and> fn_calls (effects s' e) = Suc (fn_calls (effects s e))
           \<and> fn_calls (effects s' (nextEffect s)) = 1
           \<and> parent (effects s' e) = None \<and> parent (effects s' (nextEffect s)) = None
           \<and> graph_ok s'"
    by blast
  have enter: "\<forall>u x. parent (effects (run_enter x (u :: 'a state)) x) = activeEffect u
              \<and> activeEffect (run_enter x u) = Some x"
    by (simp add: run_enter_def cleanupEffect_eq upd_effect_def)
  have leave: "activeEffect (run_exit x b u) = parent (effects u x)" for u :: "'a state" and x b
  proof -
    have "parent (effects (finalizeDepMarkers x u) x) = parent (effects u x)"
      using finalizeDepMarkers_shell [of u x] by (simp add: shell_eq_def)
    then show ?thesis by (simp add: run_exit_def Let_def upd_effect_def)
  qed
  from first enter leave show ?thesis by blast
qed

theorem nested_effects_attribute_reads_witness:
  "\<exists>s'. run example_env 2 0
           (new_user_effect
              (body_of [(True, [loc_a])]
               @ [Effect (body_of [(True, [loc_b]), (False, [loc_c])]) no_result False None False None]
               @ body_of [(False, [loc_b]), (True, [loc_c])])
              no_result None False None init_state)
        = Some (Normal Undefined, s')
      \<and> subscribed s' 0 loc_a \<and> subscribed s' 0 loc_c \<and> \<not> subscribed s' 0 loc_b
      \<and> subscribed s' 1 loc_b \<and> \<not> subscribed s' 1 loc_a \<and> \<not> subscribed s' 1 loc_c
      \<and> activeEffect s' = None \<and> fn_calls (effects s' 0) = 1 \<and> fn_calls (effects s' 1) = 1"
proof -
  let ?so1 = "[(True, [loc_a])]"
  let ?si = "[(True, [loc_b]), (False, [loc_c])]"
  let ?so2 = "[(False, [loc_b]), (True, [loc_c])]"
  let ?body = "body_of ?so1 @ [Effect (body_of ?si) no_result False None False None] @ body_of ?so2
                 :: int cmd list"
  let ?s = "new_user_effect ?body no_result None False None (init_state :: int state)"
  have g: "graph_ok ?s"
    by (rule graph_ok_new_user_effect [OF graph_ok_init]) (simp add: init_state_def createDep_def)
  have w: "ctx_ok ?s []" by (rule ctx_ok_new_user_effect [OF ctx_ok_init])
  have h: "0 \<notin> set ([] :: eid list)" "0 < nextEffect ?s" "active (effects ?s 0)"
    "\<not> deferStop (effects ?s 0)" "markers_clear ?s (effectTrackDepth ?s + 1)"
    "markers_clear ?s (effectTrackDepth ?s + 2)"
    by (simp_all add: new_user_effect_def new_effect_def init_state_def markers_clear_def
        createDep_def)
  have b: "fn (effects ?s 0) = ?body"
    by (simp add: new_user_effect_def new_effect_def init_state_def)
  have tr: "tracked_reads ?so1 = [loc_a]" "tracked_reads ?si = [loc_b]"
    "tracked_reads ?so2 = [loc_c]"
    by (simp_all add: tracked_reads_def)
  have z: "nextEffect ?s = 1" "fn_value 0 ?s = Undefined" "activeEffect ?s = None"
    "fn_calls (effects ?s 0) = 0"
    by (simp_all add: new_user_effect_def new_effect_def init_state_def fn_value_def no_result_def)
  from nested_effects_attribute_reads [OF g w h b, of example_env 0, THEN conjunct1]
  obtain s' where r: "run example_env (Suc (Suc 0)) 0 ?s = Some (Normal (fn_value 0 ?s), s')"
    and so: "\<forall>l. subscribed s' 0 l \<longleftrightarrow> l \<in> set [loc_a] \<union> set [loc_c]"
    and si: "\<forall>l. subscribed s' (nextEffect ?s) l \<longleftrightarrow> l \<in> set [loc_b]"
    and a: "activeEffect s' = activeEffect ?s"
    and c: "fn_calls (effects s' 0) = Suc (fn_calls (effects ?s 0))"
      "fn_calls (effects s' (nextEffect ?s)) = 1"
    unfolding tr by blast
  have ne: "loc_a \<noteq> loc_b" "loc_c \<noteq> loc_a" "loc_c \<noteq> loc_b"
    by (simp_all add: loc_a_def loc_b_def loc_c_def)
  have o: "subscribed s' 0 loc_a" "subscribed s' 0 loc_c" "\<not> subscribed s' 0 loc_b"
    using so [THEN spec, of loc_a] so [THEN spec, of loc_c] so [THEN spec, of loc_b] ne
    by auto
  have i: "subscribed s' 1 loc_b" "\<not> subscribed s' 1 loc_a" "\<not> subscribed s' 1 loc_c"
    using si [THEN spec, of loc_a] si [THEN spec, of loc_c] si [THEN spec, of loc_b] ne
    unfolding z by auto
  have r': "run example_env 2 0 ?s = Some (Normal Undefined, s')"
    using r unfolding z by (simp add: numeral_2_eq_2)
  have m: "activeEffect s' = None" "fn_calls (effects s' 0) = 1" "fn_calls (effects s' 1) = 1"
    using a c unfolding z by simp_all
  from r' o i m show ?thesis by blast
qed

end
